theory Spec2Isabelle
  imports Main "HOL-Library.Sublist"
begin

section \<open>Python primitives used by the program\<close>

text \<open>
  A Python \<open>str\<close> is modelled as a \<open>string\<close>: one \<open>char\<close> per code point, for
  texts over the code points 0..255. The character classes of Python (\<open>str.isspace\<close>,
  the line boundaries of \<open>str.splitlines\<close>, \<open>str.lower\<close>, and \<open>\w\<close>, \<open>\d\<close>,
  \<open>\s\<close> of the \<open>re\<close> module on \<open>str\<close> patterns) are given on that range.
  Python integers are \<open>int\<close>; lengths and counts are \<open>nat\<close>.
\<close>

definition newline :: char where
  "newline = CHR 0x0A"

definition code_point :: "char \<Rightarrow> nat" where
  "code_point c = of_char c"

text \<open>\<open>c.isspace()\<close>, which is also the class \<open>\s\<close>.\<close>

definition isspace :: "char \<Rightarrow> bool" where
  "isspace c = (let n = code_point c in
     (9 \<le> n \<and> n \<le> 13) \<or> (28 \<le> n \<and> n \<le> 32) \<or> n = 133 \<or> n = 160)"

text \<open>The characters at which \<open>str.splitlines\<close> ends a line.\<close>

definition is_linebreak :: "char \<Rightarrow> bool" where
  "is_linebreak c = (let n = code_point c in
     (10 \<le> n \<and> n \<le> 13) \<or> (28 \<le> n \<and> n \<le> 30) \<or> n = 133)"

text \<open>The class \<open>\d\<close>.\<close>

definition is_digit :: "char \<Rightarrow> bool" where
  "is_digit c = (let n = code_point c in 48 \<le> n \<and> n \<le> 57)"

text \<open>The class \<open>\w\<close>: the alphanumeric characters and the underscore.\<close>

definition is_word :: "char \<Rightarrow> bool" where
  "is_word c = (let n = code_point c in
     (48 \<le> n \<and> n \<le> 57) \<or> (65 \<le> n \<and> n \<le> 90) \<or> n = 95 \<or> (97 \<le> n \<and> n \<le> 122)
     \<or> n = 170 \<or> n = 178 \<or> n = 179 \<or> n = 181 \<or> n = 185 \<or> n = 186
     \<or> (188 \<le> n \<and> n \<le> 190) \<or> (192 \<le> n \<and> n \<le> 214)
     \<or> (216 \<le> n \<and> n \<le> 246) \<or> (248 \<le> n \<and> n \<le> 255))"

text \<open>\<open>s.lower()\<close>, character by character.\<close>

definition lower_char :: "char \<Rightarrow> char" where
  "lower_char c = (let n = code_point c in
     if (65 \<le> n \<and> n \<le> 90) \<or> (192 \<le> n \<and> n \<le> 214) \<or> (216 \<le> n \<and> n \<le> 222)
     then char_of (n + 32) else c)"

definition lower :: "string \<Rightarrow> string" where
  "lower s = map lower_char s"

text \<open>\<open>s.strip()\<close>.\<close>

definition strip :: "string \<Rightarrow> string" where
  "strip s = rev (dropWhile isspace (rev (dropWhile isspace s)))"

text \<open>
  \<open>s.splitlines()\<close>: the lines of \<open>s\<close> without their terminators. A carriage return
  followed by a line feed is one terminator, and a terminator at the very end opens no
  further line. \<open>cur\<close> is the line read so far.
\<close>

fun splitlines_from :: "string \<Rightarrow> string \<Rightarrow> string list" where
  "splitlines_from cur [] = (if cur = [] then [] else [cur])"
| "splitlines_from cur (c # s) =
     (if is_linebreak c then
        (case s of
           [] \<Rightarrow> cur # splitlines_from [] s
         | d # s' \<Rightarrow> if c = CHR 0x0D \<and> d = CHR 0x0A then cur # splitlines_from [] s'
                     else cur # splitlines_from [] s)
      else splitlines_from (cur @ [c]) s)"

definition splitlines :: "string \<Rightarrow> string list" where
  "splitlines s = splitlines_from [] s"

text \<open>\<open>sep.join(xs)\<close>.\<close>

fun join :: "'a list \<Rightarrow> 'a list list \<Rightarrow> 'a list" where
  "join sep [] = []"
| "join sep [x] = x"
| "join sep (x # y # ys) = x @ sep @ join sep (y # ys)"

text \<open>\<open>str(n)\<close> for a natural number, as the f-string of the chunk payload renders it.\<close>

fun str_nat :: "nat \<Rightarrow> string" where
  "str_nat n = (if n < 10 then [''0123456789'' ! n]
                else str_nat (n div 10) @ [''0123456789'' ! (n mod 10)])"

text \<open>
  Index adjustment of a slice bound or of a search bound against a sequence of length
  \<open>n\<close>: a negative index counts from the end, and the result is clipped to \<open>0..n\<close>.
\<close>

definition adjust_index :: "nat \<Rightarrow> int \<Rightarrow> nat" where
  "adjust_index n i =
     (if i < 0 then (if i + int n < 0 then 0 else nat (i + int n))
      else if int n < i then n else nat i)"

text \<open>\<open>s[i:j]\<close>.\<close>

definition py_slice :: "'a list \<Rightarrow> int \<Rightarrow> int \<Rightarrow> 'a list" where
  "py_slice s i j =
     (let a = adjust_index (length s) i; b = adjust_index (length s) j
      in take (b - a) (drop a s))"

text \<open>
  \<open>s.rfind(c, i, j)\<close> for a one-character needle: the highest index \<open>k\<close> with
  \<open>a \<le> k < b\<close> and \<open>s[k] = c\<close>, for the adjusted bounds \<open>a\<close> and \<open>b\<close>, and \<open>-1\<close>
  when there is none.
\<close>

definition py_rfind :: "'a list \<Rightarrow> 'a \<Rightarrow> int \<Rightarrow> int \<Rightarrow> int" where
  "py_rfind s c i j =
     (let a = adjust_index (length s) i; b = adjust_index (length s) j
      in case List.find (\<lambda>k. s ! k = c) (rev [a..<b]) of
           None \<Rightarrow> - 1
         | Some k \<Rightarrow> int k)"

section \<open>The regular expressions of the program\<close>

text \<open>
  The three patterns of the program are sequences of items over character classes: one
  character of a class, an optional character (\<open>c?\<close>), and a greedy repetition with a
  lower bound (\<open>c+\<close> is \<open>AtLeast 1\<close>, \<open>c{7,}\<close> is \<open>AtLeast 7\<close>, \<open>c*\<close> is
  \<open>AtLeast 0\<close>).
\<close>

datatype item = One "char \<Rightarrow> bool" | Opt "char \<Rightarrow> bool" | AtLeast nat "char \<Rightarrow> bool"

text \<open>
  The rests of \<open>s\<close> that a greedy repetition of at least \<open>n\<close> characters of class \<open>p\<close>
  can leave, in the order in which a backtracking matcher tries them: the longest run
  first, then one character less at a time, down to \<open>n\<close> characters.
\<close>

definition greedy_rests :: "nat \<Rightarrow> (char \<Rightarrow> bool) \<Rightarrow> string \<Rightarrow> string list" where
  "greedy_rests n p s = map (\<lambda>k. drop k s) (rev [n..<Suc (length (takeWhile p s))])"

fun first_some :: "('a \<Rightarrow> 'b option) \<Rightarrow> 'a list \<Rightarrow> 'b option" where
  "first_some f [] = None"
| "first_some f (x # xs) = (case f x of Some y \<Rightarrow> Some y | None \<Rightarrow> first_some f xs)"

text \<open>
  Matching a pattern at the start of \<open>s\<close>, as \<open>re\<close> does it: the result is the rest of
  \<open>s\<close> after the match that the backtracking search finds first, or \<open>None\<close>.
\<close>

fun re_match :: "item list \<Rightarrow> string \<Rightarrow> string option" where
  "re_match [] s = Some s"
| "re_match (One p # r) s =
     (case s of [] \<Rightarrow> None | c # t \<Rightarrow> if p c then re_match r t else None)"
| "re_match (Opt p # r) s =
     (case (case s of [] \<Rightarrow> None | c # t \<Rightarrow> if p c then re_match r t else None) of
        Some t \<Rightarrow> Some t
      | None \<Rightarrow> re_match r s)"
| "re_match (AtLeast n p # r) s = first_some (re_match r) (greedy_rests n p s)"

text \<open>
  \<open>re.sub(pat, repl, s)\<close> for a replacement without group references: the leftmost
  match is replaced and the scan goes on after it; where nothing matches, the character
  is copied. (An empty match is replaced too and the scan moves on by one character; the
  patterns of the program match no empty string.)
\<close>

function re_sub :: "item list \<Rightarrow> string \<Rightarrow> string \<Rightarrow> string" where
  "re_sub pat repl [] = (case re_match pat [] of Some t \<Rightarrow> repl | None \<Rightarrow> [])"
| "re_sub pat repl (c # s) =
     (case re_match pat (c # s) of
        Some t \<Rightarrow> if length t < length (c # s) then repl @ re_sub pat repl t
                  else repl @ c # re_sub pat repl s
      | None \<Rightarrow> c # re_sub pat repl s)"
  by pat_completeness auto
termination
  by (relation "measure (\<lambda>(pat, repl, s). length s)") auto

text \<open>\<open>re.search(pat, s)\<close>: the text of the leftmost match, \<open>m.group(0)\<close>.\<close>

fun re_search :: "item list \<Rightarrow> string \<Rightarrow> string option" where
  "re_search pat [] = (case re_match pat [] of Some t \<Rightarrow> Some [] | None \<Rightarrow> None)"
| "re_search pat (c # s) =
     (case re_match pat (c # s) of
        Some t \<Rightarrow> Some (take (length (c # s) - length t) (c # s))
      | None \<Rightarrow> re_search pat s)"

section \<open>The preprocessor (core/preprocess.py)\<close>

definition SYSTEM_NOISE_PHRASES :: "string list" where
  "SYSTEM_NOISE_PHRASES =
     [''Messages and calls are end-to-end encrypted'',
      ''You changed your phone number'',
      ''joined using this group's invite link'',
      ''created group'',
      ''added'',
      ''left'',
      ''changed the subject'',
      ''changed this group's icon'',
      ''This message was deleted'',
      ''Missed voice call'',
      ''Missed video call'']"

definition ATTACHMENT_MARKERS :: "string list" where
  "ATTACHMENT_MARKERS =
     [''<Media omitted>'',
      ''image omitted'',
      ''video omitted'',
      ''GIF omitted'',
      ''audio omitted'',
      ''document omitted'',
      ''sticker omitted'',
      ''attached'']"

text \<open>The character classes \<open>[\w\.-]\<close> and \<open>[\d\s\-\(\)]\<close>.\<close>

definition email_char :: "char \<Rightarrow> bool" where
  "email_char c = (is_word c \<or> c = CHR ''.'' \<or> c = CHR ''-'')"

definition phone_char :: "char \<Rightarrow> bool" where
  "phone_char c =
     (is_digit c \<or> isspace c \<or> c = CHR ''-'' \<or> c = CHR ''('' \<or> c = CHR '')'')"

text \<open>The pattern \<^verbatim>\<open>[\w\.-]+@[\w\.-]+\.\w+\<close>.\<close>

definition EMAIL_RE :: "item list" where
  "EMAIL_RE = [AtLeast 1 email_char, One (\<lambda>c. c = CHR ''@''), AtLeast 1 email_char,
               One (\<lambda>c. c = CHR ''.''), AtLeast 1 is_word]"

text \<open>The pattern \<^verbatim>\<open>\+?\d[\d\s\-\(\)]{7,}\d\<close>.\<close>

definition PHONE_RE :: "item list" where
  "PHONE_RE = [Opt (\<lambda>c. c = CHR ''+''), One is_digit, AtLeast 7 phone_char, One is_digit]"

definition mask_pii :: "string \<Rightarrow> string" where
  "mask_pii text = re_sub PHONE_RE ''[PHONE]'' (re_sub EMAIL_RE ''[EMAIL]'' text)"

text \<open>\<open>any(p.lower() in s.lower() for p in phrases)\<close>.\<close>

definition any_phrase_in :: "string list \<Rightarrow> string \<Rightarrow> bool" where
  "any_phrase_in phrases s = list_ex (\<lambda>p. sublist (lower p) (lower s)) phrases"

text \<open>
  The loop over the lines of the window, on its state \<open>(cleaned, removed)\<close>:
  \<^verbatim>\<open>
    for ln in lines:
        s = ln.strip()
        if not s:
            continue
        if remove_system and any(p.lower() in s.lower() for p in SYSTEM_NOISE_PHRASES):
            removed += 1
            continue
        if remove_attachments and any(m.lower() in s.lower() for m in ATTACHMENT_MARKERS):
            removed += 1
            continue
        cleaned.append(s)
  \<close>
\<close>

fun filter_lines :: "bool \<Rightarrow> bool \<Rightarrow> string list \<Rightarrow> string list \<Rightarrow> nat \<Rightarrow> string list \<times> nat" where
  "filter_lines remove_system remove_attachments [] cleaned removed = (cleaned, removed)"
| "filter_lines remove_system remove_attachments (ln # lines) cleaned removed =
     (let s = strip ln in
      if s = [] then filter_lines remove_system remove_attachments lines cleaned removed
      else if remove_system \<and> any_phrase_in SYSTEM_NOISE_PHRASES s
        then filter_lines remove_system remove_attachments lines cleaned (removed + 1)
      else if remove_attachments \<and> any_phrase_in ATTACHMENT_MARKERS s
        then filter_lines remove_system remove_attachments lines cleaned (removed + 1)
      else filter_lines remove_system remove_attachments lines (cleaned @ [s]) removed)"

record stats =
  original_lines :: nat
  kept_lines_window :: nat
  removed_noise_lines :: nat
  final_chars :: nat

text \<open>
  The window of the last lines:
  \<^verbatim>\<open>
    if keep_last_lines and keep_last_lines > 0:
        lines = lines[-keep_last_lines:]
  \<close>
  The argument \<open>keep_last_lines\<close> is \<open>None\<close> for Python's \<open>None\<close>; the guard lets
  through the positive integers only, and the slice runs from the adjusted index
  \<open>-keep_last_lines\<close> to the end.
\<close>

definition window_lines :: "string list \<Rightarrow> int option \<Rightarrow> string list" where
  "window_lines lines keep_last_lines =
     (case keep_last_lines of
        None \<Rightarrow> lines
      | Some k \<Rightarrow> if k \<noteq> 0 \<and> k > 0 then drop (adjust_index (length lines) (- k)) lines
                 else lines)"

text \<open>\<open>clean_whatsapp_text\<close>.\<close>

definition clean_whatsapp_text ::
  "string \<Rightarrow> int option \<Rightarrow> bool \<Rightarrow> bool \<Rightarrow> bool \<Rightarrow> string \<times> stats" where
  "clean_whatsapp_text raw_text keep_last_lines remove_system remove_attachments pii_mask =
     (let all_lines = splitlines raw_text;
          lines = window_lines all_lines keep_last_lines;
          (cleaned, removed) = filter_lines remove_system remove_attachments lines [] 0;
          joined = join [newline] cleaned;
          text = (if pii_mask then mask_pii joined else joined)
      in (text, \<lparr>original_lines = length all_lines,
                 kept_lines_window = length lines,
                 removed_noise_lines = removed,
                 final_chars = length text\<rparr>))"

section \<open>The chunker (core/summarizer.py, \<open>_chunk_text\<close>)\<close>

text \<open>
  The body of the loop up to the choice of the cut:
  \<^verbatim>\<open>
      end = min(start + max_chars, len(text))
      cut = text.rfind("\n", start, end)
      if cut == -1 or cut <= start + 1000:
          cut = end
  \<close>
\<close>

definition chunk_cut :: "string \<Rightarrow> int \<Rightarrow> int \<Rightarrow> int" where
  "chunk_cut text max_chars start =
     (let end' = min (start + max_chars) (int (length text));
          cut = py_rfind text newline start end'
      in if cut = - 1 \<or> cut \<le> start + 1000 then end' else cut)"

text \<open>
  The loop \<^verbatim>\<open>while start < len(text)\<close> on its state \<open>(start, chunks)\<close>. It returns the
  state at the exit of the loop; \<open>None\<close> stands for a loop that does not end.
\<close>

partial_function (option) chunk_loop ::
  "string \<Rightarrow> int \<Rightarrow> int \<Rightarrow> string list \<Rightarrow> (string list \<times> int) option" where
  "chunk_loop text max_chars start chunks =
     (if start < int (length text)
      then chunk_loop text max_chars (chunk_cut text max_chars start)
             (chunks @ [py_slice text start (chunk_cut text max_chars start)])
      else Some (chunks, start))"

declare chunk_loop.simps [code]

text \<open>\<open>_chunk_text(text, max_chars)\<close>.\<close>

definition chunk_text :: "string \<Rightarrow> int \<Rightarrow> string list option" where
  "chunk_text text max_chars =
     (if int (length text) \<le> max_chars then Some [text]
      else map_option fst (chunk_loop text max_chars 0 []))"

section \<open>The summarizer (core/summarizer.py)\<close>

definition CHUNK_PROMPT :: string where
  \<open>CHUNK_PROMPT =
     ''You are a privacy-conscious relationship assistant.\<newline>'' @
     ''Summarize the following WhatsApp chat chunk for the USER (not for the other person).\<newline>'' @
     ''Focus only on relationship-relevant memory.\<newline>'' @
     ''\<newline>'' @
     ''Return STRICT JSON with keys:\<newline>'' @
     ''- "key_topics": array of short strings\<newline>'' @
     ''- "notable_facts": array of short strings (only if clearly in text; no guessing)\<newline>'' @
     ''- "open_loops": array of short strings (promises, follow-ups, unanswered questions)\<newline>'' @
     ''- "tone": one of ["warm","neutral","tense","mixed","unknown"]\<newline>'' @
     ''- "time_signals": array of short strings\<newline>'' @
     ''\<newline>'' @
     ''Rules:\<newline>'' @
     ''- Do NOT include sensitive content unless necessary for follow-up.\<newline>'' @
     ''- If the chunk is mostly noise, return empty arrays and tone="unknown".\<newline>'' @
     ''- No extra keys. No markdown. JSON only.\<newline>''\<close>

definition REDUCE_PROMPT :: string where
  \<open>REDUCE_PROMPT =
     ''You are a privacy-conscious relationship assistant.\<newline>'' @
     ''You will receive multiple JSON chunk summaries of a WhatsApp chat.\<newline>'' @
     ''Merge them into a final, actionable relationship summary.\<newline>'' @
     ''\<newline>'' @
     ''Return STRICT JSON with keys:\<newline>'' @
     ''- "relationship_summary": array of 2-4 bullet strings (facts only, no guessing)\<newline>'' @
     ''- "key_topics": array of up to 8 short strings\<newline>'' @
     ''- "open_loops": array of up to 6 short strings\<newline>'' @
     ''- "suggested_next_action": array of 1-3 bullet strings (timing + what to do)\<newline>'' @
     ''- "message_drafts": object with keys "whatsapp", "linkedin", "email" (each max 70 words)\<newline>'' @
     ''- "confidence_note": one short string explaining any missing context\<newline>'' @
     ''\<newline>'' @
     ''Rules:\<newline>'' @
     ''- Be warm, human, not salesy.\<newline>'' @
     ''- If information is insufficient, ask 1 clarifying question inside "confidence_note".\<newline>'' @
     ''- No extra keys. No markdown. JSON only.\<newline>''\<close>

text \<open>The values that \<open>json.loads\<close> returns and \<open>json.dumps\<close> takes.\<close>

datatype json =
    JNull
  | JBool bool
  | JNumber string
  | JString string
  | JArray "json list"
  | JObject "(string \<times> json) list"

datatype error =
    RuntimeError string
  | ValueError string
  | JSONDecodeError string
  | ProviderError string

text \<open>
  A request to the provider: system prompt, user content and model. The log of the
  requests made so far is the state that the summarizer threads through its calls.
\<close>

type_synonym call = "string \<times> string \<times> string"

text \<open>
  What the summarizer takes from outside the repository: the environment variable
  \<open>OPENAI_API_KEY\<close>; the provider, an oracle that answers a request, given the requests
  made before it, with the content of the first choice or with an exception; and the two
  functions of the \<open>json\<close> library, \<open>json_loads\<close> returning \<open>None\<close> where
  \<open>json.loads\<close> raises and \<open>json_dumps\<close> standing for
  \<^verbatim>\<open>json.dumps(_, ensure_ascii=False)\<close>.
\<close>

record env =
  getenv_api_key :: "string option"
  chat_completion :: "call list \<Rightarrow> string \<Rightarrow> string \<Rightarrow> string \<Rightarrow> error + string"
  json_loads :: "string \<Rightarrow> json option"
  json_dumps :: "json \<Rightarrow> string"

text \<open>
  \<open>_get_client\<close>: \<^verbatim>\<open>not api_key\<close> holds for an unset variable and for an empty one. The
  client is represented by its key.
\<close>

definition get_client :: "env \<Rightarrow> error + string" where
  "get_client e =
     (case getenv_api_key e of
        None \<Rightarrow> Inl (RuntimeError ''OPENAI_API_KEY is not set.'')
      | Some api_key \<Rightarrow>
          if api_key = [] then Inl (RuntimeError ''OPENAI_API_KEY is not set.'')
          else Inr api_key)"

text \<open>The pattern \<^verbatim>\<open>\{.*\}\<close> under \<open>re.S\<close>, where the dot matches every character.\<close>

definition BRACE_RE :: "item list" where
  "BRACE_RE = [One (\<lambda>c. c = CHR ''{''), AtLeast 0 (\<lambda>c. True), One (\<lambda>c. c = CHR ''}'')]"

text \<open>
  The JSON recovery of \<open>_call_openai_json\<close>, from the content of the response on:
  \<^verbatim>\<open>
    txt = resp.choices[0].message.content.strip()
    try:
        return json.loads(txt)
    except Exception:
        m = re.search(r"\{.*\}", txt, flags=re.S)
        if m:
            return json.loads(m.group(0))
        raise ValueError(f"Model did not return valid JSON:\n{txt}")
  \<close>
  An exception of the second \<open>json.loads\<close> leaves the function as it is; it is
  \<open>JSONDecodeError\<close> with the document that was parsed.
\<close>

definition parse_model_output :: "(string \<Rightarrow> json option) \<Rightarrow> string \<Rightarrow> error + json" where
  "parse_model_output ld content =
     (let txt = strip content in
      case ld txt of
        Some v \<Rightarrow> Inr v
      | None \<Rightarrow>
          (case re_search BRACE_RE txt of
             Some g \<Rightarrow> (case ld g of Some v \<Rightarrow> Inr v | None \<Rightarrow> Inl (JSONDecodeError g))
           | None \<Rightarrow> Inl (ValueError (''Model did not return valid JSON:\<newline>'' @ txt))))"

text \<open>
  \<open>_call_openai_json\<close>: the client first, then the request, which is logged, then the
  recovery of JSON from the content.
\<close>

definition call_openai_json ::
  "env \<Rightarrow> string \<Rightarrow> string \<Rightarrow> string \<Rightarrow> call list \<Rightarrow> (error + json) \<times> call list" where
  "call_openai_json e system_prompt user_content model log =
     (case get_client e of
        Inl err \<Rightarrow> (Inl err, log)
      | Inr client \<Rightarrow>
          (case chat_completion e log system_prompt user_content model of
             Inl err \<Rightarrow> (Inl err, log @ [(system_prompt, user_content, model)])
           | Inr content \<Rightarrow>
               (parse_model_output (json_loads e) content,
                log @ [(system_prompt, user_content, model)])))"

text \<open>The f-string that is the user content of the request for chunk \<open>i\<close> of \<open>n\<close>.\<close>

definition chunk_payload ::
  "string \<Rightarrow> string \<Rightarrow> string \<Rightarrow> string \<Rightarrow> nat \<Rightarrow> nat \<Rightarrow> string \<Rightarrow> string" where
  "chunk_payload person_name purpose tone channel i n ch =
     ''Context:\<newline>'' @
     ''- Person name: '' @ person_name @ ''\<newline>'' @
     ''- Purpose: '' @ purpose @ ''\<newline>'' @
     ''- Desired tone for drafts: '' @ tone @ ''\<newline>'' @
     ''- Primary channel: '' @ channel @ ''\<newline>'' @
     ''\<newline>'' @
     ''Chat chunk '' @ str_nat i @ ''/'' @ str_nat n @ '':\<newline>'' @
     ch @ ''\<newline>''"

text \<open>
  The loop \<^verbatim>\<open>for i, ch in enumerate(chunks, start=1)\<close> on its state
  \<open>(chunk_summaries, log)\<close>; an exception of a call ends it.
\<close>

fun map_stage ::
  "env \<Rightarrow> string \<Rightarrow> string \<Rightarrow> string \<Rightarrow> string \<Rightarrow> string \<Rightarrow> nat \<Rightarrow> nat \<Rightarrow> string list \<Rightarrow>
   json list \<Rightarrow> call list \<Rightarrow> (error + json list) \<times> call list" where
  "map_stage e person_name purpose tone channel model n i [] chunk_summaries log =
     (Inr chunk_summaries, log)"
| "map_stage e person_name purpose tone channel model n i (ch # chunks) chunk_summaries log =
     (case call_openai_json e CHUNK_PROMPT
             (chunk_payload person_name purpose tone channel i n ch) model log of
        (Inl err, log') \<Rightarrow> (Inl err, log')
      | (Inr summary, log') \<Rightarrow>
          map_stage e person_name purpose tone channel model n (i + 1) chunks
            (chunk_summaries @ [summary]) log')"

text \<open>
  \<open>summarize_whatsapp_hybrid\<close>, with the result and the log of the requests made.
  \<open>None\<close> stands for a chunker that does not return.
\<close>

definition summarize_whatsapp_hybrid ::
  "env \<Rightarrow> string \<Rightarrow> string \<Rightarrow> string \<Rightarrow> string \<Rightarrow> string \<Rightarrow> string \<Rightarrow>
   ((error + json) \<times> call list) option" where
  "summarize_whatsapp_hybrid e clean_text person_name purpose tone channel model =
     (case chunk_text clean_text 9000 of
        None \<Rightarrow> None
      | Some chunks \<Rightarrow>
          Some (case map_stage e person_name purpose tone channel model (length chunks) 1
                       chunks [] [] of
                  (Inl err, log) \<Rightarrow> (Inl err, log)
                | (Inr chunk_summaries, log) \<Rightarrow>
                    call_openai_json e REDUCE_PROMPT
                      (json_dumps e (JObject [(''chunk_summaries'', JArray chunk_summaries)]))
                      model log))"

section \<open>The page script (app.py)\<close>

text \<open>
  The script from the uploaded text on. It always runs the preprocessor and shows its
  result; it warns when the credential is absent; and when the button is clicked it stops
  with an error if the credential is absent, and calls the summarizer otherwise. The page
  shows the statistics and a preview of the first 60 lines of the cleaned text; the record
  below keeps the whole cleaned text, and how the page renders the result of the
  summarizer is not modelled.
  \<^verbatim>\<open>
    if not os.getenv("OPENAI_API_KEY"):
        st.warning("OPENAI_API_KEY is not set. ...")
    ...
    clean_text, stats = clean_whatsapp_text(raw_text, keep_last_lines=keep_last_lines, ...)
    ...
    if st.button("Summarize with AI"):
        if not os.getenv("OPENAI_API_KEY"):
            st.error("OPENAI_API_KEY is missing.")
            st.stop()
        if not person_name.strip():
            person_name = "Unknown"
        result = summarize_whatsapp_hybrid(clean_text=clean_text, ...)
  \<close>
\<close>

definition no_api_key :: "env \<Rightarrow> bool" where
  "no_api_key e = (case getenv_api_key e of None \<Rightarrow> True | Some api_key \<Rightarrow> api_key = [])"

datatype step_b =
    NotRequested
  | Stopped string
  | Summarized "(error + json) \<times> call list"

record page =
  warning :: "string option"
  clean_text_shown :: string
  stats_shown :: stats
  summary :: step_b

definition app_script ::
  "env \<Rightarrow> string \<Rightarrow> int \<Rightarrow> bool \<Rightarrow> bool \<Rightarrow> bool \<Rightarrow> string \<Rightarrow> string \<Rightarrow> string \<Rightarrow> string \<Rightarrow>
   string \<Rightarrow> bool \<Rightarrow> page option" where
  "app_script e raw_text keep_last_lines remove_system remove_attachments pii_mask
     person_name purpose tone channel model clicked =
     (let warn = (if no_api_key e
                  then Some (''OPENAI_API_KEY is not set. Add it to your .env file or '' @
                             ''environment variables to enable AI summarization.'')
                  else None);
          (clean_text, stats) =
             clean_whatsapp_text raw_text (Some keep_last_lines) remove_system
               remove_attachments pii_mask
      in if \<not> clicked then
           Some \<lparr>warning = warn, clean_text_shown = clean_text, stats_shown = stats,
                 summary = NotRequested\<rparr>
         else if no_api_key e then
           Some \<lparr>warning = warn, clean_text_shown = clean_text, stats_shown = stats,
                 summary = Stopped ''OPENAI_API_KEY is missing.''\<rparr>
         else
           (case summarize_whatsapp_hybrid e clean_text
                   (if strip person_name = [] then ''Unknown'' else person_name)
                   purpose tone channel model of
              None \<Rightarrow> None
            | Some result \<Rightarrow>
                Some \<lparr>warning = warn, clean_text_shown = clean_text, stats_shown = stats,
                      summary = Summarized result\<rparr>))"

section \<open>Notions used in the statements\<close>

text \<open>
  The requests of the map stage for the chunks, numbered from \<open>i\<close>, in the order of the
  chunks.
\<close>

fun map_requests ::
  "string \<Rightarrow> string \<Rightarrow> string \<Rightarrow> string \<Rightarrow> string \<Rightarrow> nat \<Rightarrow> nat \<Rightarrow> string list \<Rightarrow> call list" where
  "map_requests person_name purpose tone channel model n i [] = []"
| "map_requests person_name purpose tone channel model n i (ch # chunks) =
     (CHUNK_PROMPT, chunk_payload person_name purpose tone channel i n ch, model)
       # map_requests person_name purpose tone channel model n (i + 1) chunks"

text \<open>
  The slices of \<open>text\<close> that start at the positions \<open>starts\<close>, each ending where the
  next one starts and the last one at the end of the text.
\<close>

definition slices_at :: "'a list \<Rightarrow> nat list \<Rightarrow> 'a list list" where
  "slices_at text starts =
     map (\<lambda>(a, b). take (b - a) (drop a text)) (zip starts (tl starts @ [length text]))"

text \<open>A stripped line that the filters of the preprocessor count as noise.\<close>

definition is_noise_line :: "bool \<Rightarrow> bool \<Rightarrow> string \<Rightarrow> bool" where
  "is_noise_line remove_system remove_attachments s =
     ((remove_system \<and> any_phrase_in SYSTEM_NOISE_PHRASES s)
      \<or> (remove_attachments \<and> any_phrase_in ATTACHMENT_MARKERS s))"

text \<open>
  The span of \<open>s\<close> from its first opening brace through its last closing brace, when
  the last closing brace comes after the first opening brace.
\<close>

definition greedy_brace_span :: "string \<Rightarrow> string option" where
  "greedy_brace_span s =
     (case dropWhile (\<lambda>c. c \<noteq> CHR ''{'') s of
        [] \<Rightarrow> None
      | b # u \<Rightarrow> if CHR ''}'' \<in> set u
                 then Some (b # rev (dropWhile (\<lambda>c. c \<noteq> CHR ''}'') (rev u)))
                 else None)"

text \<open>
  The strings that a pattern matches as a whole: the language of the pattern. The matcher
  \<open>re_match\<close> finds a match at the start of a text exactly when a string of the language
  is a prefix of the text.
\<close>

fun lang :: "item list \<Rightarrow> string set" where
  "lang [] = {[]}"
| "lang (One p # r) = {c # w | c w. p c \<and> w \<in> lang r}"
| "lang (Opt p # r) = {c # w | c w. p c \<and> w \<in> lang r} \<union> lang r"
| "lang (AtLeast n p # r) = {u @ w | u w. n \<le> length u \<and> (\<forall>c\<in>set u. p c) \<and> w \<in> lang r}"

section \<open>A decoder and an encoder for a fragment of JSON\<close>

text \<open>
  The library functions \<open>json.loads\<close> and \<open>json.dumps\<close> are parameters of the
  summarizer. The examples instantiate them with a decoder and an encoder for the JSON
  texts without escape sequences, fractions and exponents: objects, arrays, strings,
  integers, \<open>true\<close>, \<open>false\<close> and \<open>null\<close>, with white space between the tokens. The
  decoder represents an object as the list of its members, repeated keys included, and a
  number as its literal. It stands for \<open>json.loads\<close> on the texts of the examples only:
  it rejects \<open>NaN\<close> and \<open>Infinity\<close>, which \<open>json.loads\<close> accepts, and it puts no
  bound on the number of digits of an integer. The first argument of the three mutually
  recursive functions bounds the depth of the recursion.
\<close>

definition json_space :: "char \<Rightarrow> bool" where
  "json_space c = (c = CHR '' '' \<or> c = CHR 0x09 \<or> c = CHR 0x0A \<or> c = CHR 0x0D)"

fun decode_string :: "string \<Rightarrow> (string \<times> string) option" where
  "decode_string [] = None"
| "decode_string (c # s) =
     (if c = CHR 0x22 then Some ([], s)
      else if c = CHR 0x5C \<or> code_point c < 32 then None
      else (case decode_string s of None \<Rightarrow> None | Some (x, r) \<Rightarrow> Some (c # x, r)))"

fun decode_value :: "nat \<Rightarrow> string \<Rightarrow> (json \<times> string) option"
and decode_items :: "nat \<Rightarrow> string \<Rightarrow> (json list \<times> string) option"
and decode_members :: "nat \<Rightarrow> string \<Rightarrow> ((string \<times> json) list \<times> string) option" where
  "decode_value 0 s = None"
| "decode_value (Suc n) s =
     (case dropWhile json_space s of
        [] \<Rightarrow> None
      | c # r \<Rightarrow>
          if c = CHR ''{'' then
            (case dropWhile json_space r of
               [] \<Rightarrow> None
             | d # r' \<Rightarrow>
                 if d = CHR ''}'' then Some (JObject [], r')
                 else (case decode_members n (d # r') of
                         None \<Rightarrow> None
                       | Some (ms, r'') \<Rightarrow> Some (JObject ms, r'')))
          else if c = CHR ''['' then
            (case dropWhile json_space r of
               [] \<Rightarrow> None
             | d # r' \<Rightarrow>
                 if d = CHR '']'' then Some (JArray [], r')
                 else (case decode_items n (d # r') of
                         None \<Rightarrow> None
                       | Some (vs, r'') \<Rightarrow> Some (JArray vs, r'')))
          else if c = CHR 0x22 then
            (case decode_string r of None \<Rightarrow> None | Some (x, r') \<Rightarrow> Some (JString x, r'))
          else if prefix ''true'' (c # r) then Some (JBool True, drop 4 (c # r))
          else if prefix ''false'' (c # r) then Some (JBool False, drop 5 (c # r))
          else if prefix ''null'' (c # r) then Some (JNull, drop 4 (c # r))
          else
            (let ds = (if c = CHR ''-'' then r else c # r);
                 digits = takeWhile is_digit ds
             in if digits = [] \<or> (1 < length digits \<and> hd digits = CHR ''0'') then None
                else Some (JNumber ((if c = CHR ''-'' then [c] else []) @ digits),
                           dropWhile is_digit ds)))"
| "decode_items 0 s = None"
| "decode_items (Suc n) s =
     (case decode_value n s of
        None \<Rightarrow> None
      | Some (v, r) \<Rightarrow>
          (case dropWhile json_space r of
             [] \<Rightarrow> None
           | c # r' \<Rightarrow>
               if c = CHR '']'' then Some ([v], r')
               else if c = CHR '','' then
                 (case decode_items n r' of
                    None \<Rightarrow> None
                  | Some (vs, r'') \<Rightarrow> Some (v # vs, r''))
               else None))"
| "decode_members 0 s = None"
| "decode_members (Suc n) s =
     (case dropWhile json_space s of
        [] \<Rightarrow> None
      | q # r \<Rightarrow>
          if q \<noteq> CHR 0x22 then None
          else
            (case decode_string r of
               None \<Rightarrow> None
             | Some (k, r1) \<Rightarrow>
                 (case dropWhile json_space r1 of
                    [] \<Rightarrow> None
                  | c # r2 \<Rightarrow>
                      if c \<noteq> CHR '':'' then None
                      else
                        (case decode_value n r2 of
                           None \<Rightarrow> None
                         | Some (v, r3) \<Rightarrow>
                             (case dropWhile json_space r3 of
                                [] \<Rightarrow> None
                              | d # r4 \<Rightarrow>
                                  if d = CHR ''}'' then Some ([(k, v)], r4)
                                  else if d = CHR '','' then
                                    (case decode_members n r4 of
                                       None \<Rightarrow> None
                                     | Some (ms, r5) \<Rightarrow> Some ((k, v) # ms, r5))
                                  else None)))))"

definition decode_json :: "string \<Rightarrow> json option" where
  "decode_json s =
     (case decode_value (Suc (length s)) s of
        None \<Rightarrow> None
      | Some (v, r) \<Rightarrow> if dropWhile json_space r = [] then Some v else None)"

text \<open>
  The encoder writes what \<open>json.dumps\<close> writes for a value whose strings need no
  escape sequence: members and items separated by a comma and a space, a key and its value
  by a colon and a space.
\<close>

fun encode_json :: "json \<Rightarrow> string"
and encode_items :: "json list \<Rightarrow> string"
and encode_members :: "(string \<times> json) list \<Rightarrow> string" where
  "encode_json JNull = ''null''"
| "encode_json (JBool b) = (if b then ''true'' else ''false'')"
| "encode_json (JNumber x) = x"
| "encode_json (JString x) = [CHR 0x22] @ x @ [CHR 0x22]"
| "encode_json (JArray vs) = ''['' @ encode_items vs @ '']''"
| "encode_json (JObject ms) = ''{'' @ encode_members ms @ ''}''"
| "encode_items [] = []"
| "encode_items [v] = encode_json v"
| "encode_items (v # w # vs) = encode_json v @ '', '' @ encode_items (w # vs)"
| "encode_members [] = []"
| "encode_members [(k, v)] = [CHR 0x22] @ k @ [CHR 0x22] @ '': '' @ encode_json v"
| "encode_members ((k, v) # m # ms) =
     [CHR 0x22] @ k @ [CHR 0x22] @ '': '' @ encode_json v @ '', '' @ encode_members (m # ms)"

text \<open>
  An environment for the examples: a credential, the decoder and the encoder above, and a
  provider that answers a map request with a summary wrapped in prose, numbered by the
  position of the request, and any other request with a final summary.
\<close>

definition demo_env :: env where
  \<open>demo_env =
     \<lparr>getenv_api_key = Some ''sk-demo'',
      chat_completion = (\<lambda>log system_prompt user_content model.
         if system_prompt = CHUNK_PROMPT
         then Inr (''Here you go: {"tone": "warm", "order": '' @ str_nat (Suc (length log)) @ ''}'')
         else Inr ''{"confidence_note": "ok"}''),
      json_loads = decode_json,
      json_dumps = encode_json\<rparr>\<close>

text \<open>A text without a newline that the chunker cuts into three chunks.\<close>

definition demo_text :: string where
  "demo_text = replicate 20000 (CHR ''a'')"

section \<open>Properties of the chunker\<close>

lemma find_Some_set: "List.find P xs = Some x \<Longrightarrow> x \<in> set xs \<and> P x"
  by (induction xs) (auto split: if_splits)

lemma py_rfind_range:
  "py_rfind s c i j = - 1 \<or>
   (int (adjust_index (length s) i) \<le> py_rfind s c i j
    \<and> py_rfind s c i j < int (adjust_index (length s) j)
    \<and> s ! nat (py_rfind s c i j) = c)"
  by (auto simp: py_rfind_def Let_def split: option.splits dest!: find_Some_set)

lemma adjust_index_inside: "0 \<le> i \<Longrightarrow> i \<le> int n \<Longrightarrow> adjust_index n i = nat i"
  by (simp add: adjust_index_def)

lemma chunk_cut_cases:
  assumes "1 \<le> m" "0 \<le> start" "start < int (length tx)"
  shows "chunk_cut tx m start = min (start + m) (int (length tx))
         \<or> (start + 1000 < chunk_cut tx m start
             \<and> chunk_cut tx m start < min (start + m) (int (length tx))
             \<and> tx ! nat (chunk_cut tx m start) = newline)"
proof -
  let ?e = "min (start + m) (int (length tx))"
  have a: "adjust_index (length tx) ?e = nat ?e"
    using assms by (intro adjust_index_inside) auto
  from py_rfind_range[of tx newline start "?e"] a
  show ?thesis using assms by (auto simp: chunk_cut_def Let_def)
qed

lemma chunk_cut_progress:
  assumes "1 \<le> m" "0 \<le> start" "start < int (length tx)"
  shows "start < chunk_cut tx m start \<and> chunk_cut tx m start \<le> int (length tx)
         \<and> chunk_cut tx m start \<le> start + m"
  using chunk_cut_cases[OF assms] assms by auto

lemma py_slice_inside:
  "0 \<le> i \<Longrightarrow> i \<le> j \<Longrightarrow> j \<le> int (length s) \<Longrightarrow>
   py_slice s i j = take (nat j - nat i) (drop (nat i) s)"
  by (simp add: py_slice_def adjust_index_inside Let_def)

lemma slices_at_Nil: "slices_at tx [] = []"
  by (simp add: slices_at_def)

lemma slices_at_Cons:
  "slices_at tx (a # ss) = take (hd (ss @ [length tx]) - a) (drop a tx) # slices_at tx ss"
  by (cases ss) (simp_all add: slices_at_def)

lemma concat_slices_at:
  "sorted_wrt (<) starts \<Longrightarrow> starts \<noteq> [] \<Longrightarrow>
   concat (slices_at tx starts) = drop (hd starts) tx"
proof (induction starts)
  case Nil
  then show ?case by simp
next
  case (Cons a ss)
  show ?case
  proof (cases ss)
    case Nil
    then show ?thesis by (simp add: slices_at_Cons slices_at_Nil)
  next
    case (Cons x xs)
    with Cons.prems have ax: "a < x" by simp
    from Cons.IH Cons.prems Cons have ih: "concat (slices_at tx ss) = drop x tx" by simp
    have "take (x - a) (drop a tx) @ drop (x - a) (drop a tx) = drop a tx"
      by (rule append_take_drop_id)
    moreover have "drop (x - a) (drop a tx) = drop x tx" using ax by simp
    ultimately show ?thesis using Cons ih by (simp add: slices_at_Cons)
  qed
qed

lemma chunk_loop_run:
  assumes m: "1 \<le> m"
  shows "0 \<le> start \<Longrightarrow> start \<le> int (length tx) \<Longrightarrow>
    \<exists>starts. chunk_loop tx m start acc = Some (acc @ slices_at tx starts, int (length tx))
       \<and> sorted_wrt (<) starts
       \<and> (\<forall>s\<in>set starts. nat start \<le> s \<and> s < length tx)
       \<and> (start < int (length tx) \<longrightarrow> starts \<noteq> [] \<and> hd starts = nat start)
       \<and> (\<forall>c\<in>set (slices_at tx starts). c \<noteq> [] \<and> int (length c) \<le> m)"
proof (induction "nat (int (length tx) - start)" arbitrary: start acc rule: less_induct)
  case less
  show ?case
  proof (cases "start < int (length tx)")
    case False
    with less.prems have "start = int (length tx)" by simp
    then have "chunk_loop tx m start acc = Some (acc, int (length tx))"
      by (subst chunk_loop.simps) simp
    then show ?thesis using False by (intro exI[of _ "[]"]) (simp add: slices_at_Nil)
  next
    case True
    define cut where "cut = chunk_cut tx m start"
    from chunk_cut_progress[OF m less.prems(1) True]
    have cut: "start < cut" "cut \<le> int (length tx)" "cut \<le> start + m"
      by (simp_all add: cut_def)
    have "nat (int (length tx) - cut) < nat (int (length tx) - start)"
      using cut True by simp
    from less.hyps[OF this, of "acc @ [py_slice tx start cut]"] cut less.prems
    obtain ss where ss:
      "chunk_loop tx m cut (acc @ [py_slice tx start cut])
         = Some ((acc @ [py_slice tx start cut]) @ slices_at tx ss, int (length tx))"
      "sorted_wrt (<) ss"
      "\<forall>s\<in>set ss. nat cut \<le> s \<and> s < length tx"
      "cut < int (length tx) \<longrightarrow> ss \<noteq> [] \<and> hd ss = nat cut"
      "\<forall>c\<in>set (slices_at tx ss). c \<noteq> [] \<and> int (length c) \<le> m"
      by auto
    have hd_eq: "hd (ss @ [length tx]) = nat cut"
    proof (cases "cut < int (length tx)")
      case True
      with ss(4) show ?thesis by (cases ss) auto
    next
      case False
      with cut have c: "nat cut = length tx" by simp
      with ss(3) have "ss = []" by (cases ss) auto
      with c show ?thesis by simp
    qed
    have sl: "py_slice tx start cut = take (nat cut - nat start) (drop (nat start) tx)"
      using cut less.prems by (intro py_slice_inside) auto
    have step: "slices_at tx (nat start # ss) = py_slice tx start cut # slices_at tx ss"
      by (simp add: slices_at_Cons hd_eq sl)
    have run: "chunk_loop tx m start acc
                 = Some (acc @ slices_at tx (nat start # ss), int (length tx))"
      by (subst chunk_loop.simps) (use True ss(1) step in \<open>simp add: cut_def\<close>)
    have srt: "sorted_wrt (<) (nat start # ss)"
      using ss(2,3) cut less.prems by auto
    have len: "py_slice tx start cut \<noteq> [] \<and> int (length (py_slice tx start cut)) \<le> m"
      using cut less.prems True by (auto simp: sl)
    show ?thesis
      using run srt ss(3,5) len True cut less.prems
      by (intro exI[of _ "nat start # ss"]) (auto simp: step)
  qed
qed


lemma chunk_text_run:
  assumes "1 \<le> m"
  shows "\<exists>starts. chunk_text tx m = Some (slices_at tx starts)
       \<and> starts \<noteq> [] \<and> hd starts = 0 \<and> sorted_wrt (<) starts
       \<and> (\<forall>s\<in>set starts. s \<le> length tx)
       \<and> (\<forall>c\<in>set (slices_at tx starts). (tx \<noteq> [] \<longrightarrow> c \<noteq> []) \<and> int (length c) \<le> m)
       \<and> (int (length tx) \<le> m \<longrightarrow> starts = [0])"
proof (cases "int (length tx) \<le> m")
  case True
  then show ?thesis
    by (intro exI[of _ "[0]"]) (simp add: chunk_text_def slices_at_Cons slices_at_Nil)
next
  case False
  with assms have pos: "(0::int) < int (length tx)" by linarith
  from chunk_loop_run[OF assms, of 0 tx "[]"] pos
  obtain starts where st:
    "chunk_loop tx m 0 [] = Some (slices_at tx starts, int (length tx))"
    "sorted_wrt (<) starts" "\<forall>s\<in>set starts. s < length tx"
    "starts \<noteq> []" "hd starts = 0"
    "\<forall>c\<in>set (slices_at tx starts). c \<noteq> [] \<and> int (length c) \<le> m"
    by auto
  show ?thesis
    using st False by (intro exI[of _ starts]) (auto simp: chunk_text_def)
qed

text \<open>
  Claim C1 (chunk round-trip). For every text and every \<open>max_chars \<ge> 1\<close> the chunker
  returns, and the chunks it returns concatenate to the text. The chunks are the slices of
  the text at strictly increasing start positions beginning with 0, each slice ending where
  the next begins and the last at the end of the text, so they are contiguous and do not
  overlap; and no chunk of a non-empty text is empty.
\<close>

theorem chunk_round_trip:
  assumes "1 \<le> max_chars"
  shows "\<exists>chunks starts. chunk_text tx max_chars = Some chunks
       \<and> concat chunks = tx
       \<and> chunks = slices_at tx starts
       \<and> starts \<noteq> [] \<and> hd starts = 0 \<and> sorted_wrt (<) starts
       \<and> (\<forall>s\<in>set starts. s \<le> length tx)
       \<and> (tx \<noteq> [] \<longrightarrow> (\<forall>c\<in>set chunks. c \<noteq> []))"
proof -
  from chunk_text_run[OF assms, of tx] obtain starts where st:
    "chunk_text tx max_chars = Some (slices_at tx starts)"
    "starts \<noteq> []" "hd starts = 0" "sorted_wrt (<) starts"
    "\<forall>s\<in>set starts. s \<le> length tx"
    "\<forall>c\<in>set (slices_at tx starts). (tx \<noteq> [] \<longrightarrow> c \<noteq> []) \<and> int (length c) \<le> max_chars"
    by blast
  have "concat (slices_at tx starts) = tx"
    using concat_slices_at[OF st(4) st(2), of tx] st(3) by simp
  with st show ?thesis by blast
qed

theorem chunk_round_trip_witness:
  "(1::int) \<le> 2 \<and> chunk_text ''abcde'' 2 = Some [''ab'', ''cd'', ''e'']
   \<and> (\<exists>chunks starts. chunk_text ''abcde'' 2 = Some chunks
       \<and> concat chunks = ''abcde''
       \<and> chunks = slices_at ''abcde'' starts
       \<and> starts \<noteq> [] \<and> hd starts = 0 \<and> sorted_wrt (<) starts
       \<and> (\<forall>s\<in>set starts. s \<le> length ''abcde'')
       \<and> (''abcde'' \<noteq> [] \<longrightarrow> (\<forall>c\<in>set chunks. c \<noteq> [])))"
proof -
  have ev: "chunk_text ''abcde'' 2 = Some [''ab'', ''cd'', ''e'']" by code_simp
  have h: "(1::int) \<le> 2" by simp
  from chunk_round_trip[OF h, of "''abcde''"] ev h show ?thesis by blast
qed

text \<open>
  Claim C2 (chunk bound and singleton case). For every text and every \<open>max_chars \<ge> 1\<close>,
  every chunk but the last has at most \<open>max_chars\<close> characters, and a text of at most
  \<open>max_chars\<close> characters gives exactly one chunk, the text itself.
\<close>

theorem chunk_bound:
  assumes "1 \<le> max_chars"
  shows "\<exists>chunks. chunk_text tx max_chars = Some chunks
       \<and> (\<forall>c\<in>set (butlast chunks). int (length c) \<le> max_chars)
       \<and> (int (length tx) \<le> max_chars \<longrightarrow> chunks = [tx])"
proof -
  from chunk_text_run[OF assms, of tx] obtain starts where st:
    "chunk_text tx max_chars = Some (slices_at tx starts)"
    "\<forall>c\<in>set (slices_at tx starts). (tx \<noteq> [] \<longrightarrow> c \<noteq> []) \<and> int (length c) \<le> max_chars"
    "int (length tx) \<le> max_chars \<longrightarrow> starts = [0]"
    by blast
  have "\<forall>c\<in>set (butlast (slices_at tx starts)). int (length c) \<le> max_chars"
    using st(2) by (auto dest: in_set_butlastD)
  moreover have "int (length tx) \<le> max_chars \<longrightarrow> slices_at tx starts = [tx]"
    using st(3) by (auto simp: slices_at_Cons slices_at_Nil)
  ultimately show ?thesis using st(1) by blast
qed

theorem chunk_bound_witness:
  "(1::int) \<le> 2 \<and> (\<exists>chunks. chunk_text ''abcde'' 2 = Some chunks
       \<and> (\<forall>c\<in>set (butlast chunks). int (length c) \<le> 2)
       \<and> (int (length ''abcde'') \<le> 2 \<longrightarrow> chunks = [''abcde'']))
   \<and> (1::int) \<le> 7 \<and> (\<exists>chunks. chunk_text ''abcde'' 7 = Some chunks
       \<and> (\<forall>c\<in>set (butlast chunks). int (length c) \<le> 7)
       \<and> (int (length ''abcde'') \<le> 7 \<longrightarrow> chunks = [''abcde'']))"
  using chunk_bound[of 2 "''abcde''"] chunk_bound[of 7 "''abcde''"] by simp

text \<open>
  Claim C8 (termination of the chunker). For \<open>max_chars \<ge> 1\<close>, every iteration of the
  loop that starts inside the text chooses a cut strictly greater than \<open>start\<close>: the
  cut is either the hard cut \<open>min(start + max_chars, len(text))\<close> or the position of a
  newline more than 1000 characters after \<open>start\<close>. Hence the loop, from every start
  position within the text, ends with \<open>start = len(text)\<close>, and \<open>_chunk_text\<close>
  returns.
\<close>

theorem chunker_terminates:
  assumes "1 \<le> max_chars"
  shows "(\<forall>start. 0 \<le> start \<and> start < int (length tx) \<longrightarrow>
            start < chunk_cut tx max_chars start
            \<and> chunk_cut tx max_chars start \<le> int (length tx)
            \<and> (chunk_cut tx max_chars start = min (start + max_chars) (int (length tx))
               \<or> (start + 1000 < chunk_cut tx max_chars start
                   \<and> tx ! nat (chunk_cut tx max_chars start) = newline)))
       \<and> (\<forall>start acc. 0 \<le> start \<and> start \<le> int (length tx) \<longrightarrow>
            (\<exists>chunks. chunk_loop tx max_chars start acc = Some (chunks, int (length tx))))
       \<and> (\<exists>chunks. chunk_text tx max_chars = Some chunks)"
proof (intro conjI allI impI)
  fix start assume s: "0 \<le> start \<and> start < int (length tx)"
  then have s1: "0 \<le> start" and s2: "start < int (length tx)" by simp_all
  from chunk_cut_progress[OF assms s1 s2]
  show "start < chunk_cut tx max_chars start" "chunk_cut tx max_chars start \<le> int (length tx)"
    by simp_all
  from chunk_cut_cases[OF assms s1 s2]
  show "chunk_cut tx max_chars start = min (start + max_chars) (int (length tx))
        \<or> (start + 1000 < chunk_cut tx max_chars start
            \<and> tx ! nat (chunk_cut tx max_chars start) = newline)"
    by blast
next
  fix start acc assume "0 \<le> start \<and> start \<le> int (length tx)"
  then have s1: "0 \<le> start" and s2: "start \<le> int (length tx)" by simp_all
  from chunk_loop_run[OF assms s1 s2, of acc]
  show "\<exists>chunks. chunk_loop tx max_chars start acc = Some (chunks, int (length tx))"
    by blast
next
  from chunk_text_run[OF assms, of tx]
  show "\<exists>chunks. chunk_text tx max_chars = Some chunks" by blast
qed

theorem chunker_terminates_witness:
  "(1::int) \<le> 3 \<and> (0::int) \<le> 2 \<and> (2::int) < int (length ''abcdefg'')
   \<and> 2 < chunk_cut ''abcdefg'' 3 2
   \<and> chunk_cut ''abcdefg'' 3 2 = 5
   \<and> chunk_loop ''abcdefg'' 3 0 [] = Some ([''abc'', ''def'', ''g''], 7)"
proof -
  have h: "(1::int) \<le> 3" by simp
  have e1: "chunk_cut ''abcdefg'' 3 2 = 5" by code_simp
  have e2: "chunk_loop ''abcdefg'' 3 0 [] = Some ([''abc'', ''def'', ''g''], 7)" by code_simp
  from chunker_terminates[OF h, of "''abcdefg''"] e1 e2 show ?thesis by simp
qed


lemma adjust_index_le: "adjust_index n i \<le> n"
  by (auto simp: adjust_index_def)

lemma py_rfind_absent: "c \<notin> set s \<Longrightarrow> py_rfind s c i j = - 1"
proof -
  assume c: "c \<notin> set s"
  have "\<not> (\<exists>k\<in>set (rev [adjust_index (length s) i..<adjust_index (length s) j]). s ! k = c)"
  proof
    assume "\<exists>k\<in>set (rev [adjust_index (length s) i..<adjust_index (length s) j]). s ! k = c"
    then obtain k where "k < adjust_index (length s) j" "s ! k = c" by auto
    with adjust_index_le[of "length s" j] have "k < length s" "s ! k = c" by simp_all
    with c show False by (metis nth_mem)
  qed
  then have "List.find (\<lambda>k. s ! k = c) (rev [adjust_index (length s) i..<adjust_index (length s) j]) = None"
    by (simp only: find_None_iff) blast
  then show ?thesis by (simp add: py_rfind_def Let_def)
qed

lemma chunk_cut_no_newline:
  "newline \<notin> set tx \<Longrightarrow> chunk_cut tx m start = min (start + m) (int (length tx))"
  by (simp add: chunk_cut_def py_rfind_absent Let_def)

lemma three_chunks:
  "chunk_text (replicate 20000 (CHR ''a'')) 9000
     = Some [replicate 9000 (CHR ''a''), replicate 9000 (CHR ''a''), replicate 2000 (CHR ''a'')]"
proof -
  let ?T = "replicate 20000 (CHR ''a'')"
  have nn: "newline \<notin> set ?T" by (simp add: newline_def)
  have c0: "chunk_cut ?T 9000 0 = 9000" "chunk_cut ?T 9000 9000 = 18000"
    "chunk_cut ?T 9000 18000 = 20000"
    by (simp_all add: chunk_cut_no_newline[OF nn])
  have s0: "py_slice ?T 0 9000 = replicate 9000 (CHR ''a'')"
    "py_slice ?T 9000 18000 = replicate 9000 (CHR ''a'')"
    "py_slice ?T 18000 20000 = replicate 2000 (CHR ''a'')"
    by (simp_all add: py_slice_def adjust_index_def)
  have l3: "chunk_loop ?T 9000 20000 [replicate 9000 (CHR ''a''), replicate 9000 (CHR ''a''),
               replicate 2000 (CHR ''a'')]
            = Some ([replicate 9000 (CHR ''a''), replicate 9000 (CHR ''a''),
               replicate 2000 (CHR ''a'')], 20000)"
    by (subst chunk_loop.simps) simp
  have l2: "chunk_loop ?T 9000 18000 [replicate 9000 (CHR ''a''), replicate 9000 (CHR ''a'')]
            = Some ([replicate 9000 (CHR ''a''), replicate 9000 (CHR ''a''),
               replicate 2000 (CHR ''a'')], 20000)"
    by (subst chunk_loop.simps) (simp add: c0 s0 l3)
  have l1: "chunk_loop ?T 9000 9000 [replicate 9000 (CHR ''a'')]
            = Some ([replicate 9000 (CHR ''a''), replicate 9000 (CHR ''a''),
               replicate 2000 (CHR ''a'')], 20000)"
    by (subst chunk_loop.simps) (simp add: c0 s0 l2)
  have l0: "chunk_loop ?T 9000 0 []
            = Some ([replicate 9000 (CHR ''a''), replicate 9000 (CHR ''a''),
               replicate 2000 (CHR ''a'')], 20000)"
    by (subst chunk_loop.simps) (simp add: c0 s0 l1)
  show ?thesis by (simp add: chunk_text_def l0)
qed


section \<open>Properties of the matcher\<close>

lemmas char_eval = code_point_def isspace_def is_linebreak_def is_digit_def is_word_def
  lower_char_def lower_def char_of_def bit_Suc_0_iff email_char_def phone_char_def newline_def

lemma first_some_SomeD: "first_some f xs = Some y \<Longrightarrow> \<exists>x\<in>set xs. f x = Some y"
  by (induction xs) (auto split: option.splits)

lemma first_some_NoneD: "first_some f xs = None \<Longrightarrow> x \<in> set xs \<Longrightarrow> f x = None"
  by (induction xs) (auto split: option.splits)

lemma greedy_rests_iff:
  "t \<in> set (greedy_rests n p s) \<longleftrightarrow>
     (\<exists>k. n \<le> k \<and> k \<le> length (takeWhile p s) \<and> t = drop k s)"
  by (auto simp: greedy_rests_def)

lemma takeWhile_prefix_all:
  "k \<le> length (takeWhile p s) \<Longrightarrow> \<forall>c\<in>set (take k s). p c"
proof -
  assume k: "k \<le> length (takeWhile p s)"
  have "take k s = take k (takeWhile p s @ dropWhile p s)" by simp
  also have "\<dots> = take k (takeWhile p s)" using k by (simp del: takeWhile_dropWhile_id)
  finally have "set (take k s) \<subseteq> set (takeWhile p s)" by (metis set_take_subset)
  then show ?thesis by (auto dest: set_takeWhileD)
qed

lemma length_takeWhile_all:
  "\<forall>c\<in>set u. p c \<Longrightarrow> length u \<le> length (takeWhile p (u @ v))"
  by (induction u) auto

lemma lang_AtLeastI:
  "n \<le> length u \<Longrightarrow> \<forall>c\<in>set u. p c \<Longrightarrow> w \<in> lang r \<Longrightarrow> u @ w \<in> lang (AtLeast n p # r)"
  unfolding lang.simps by (intro CollectI exI[of _ u] exI[of _ w] conjI refl) assumption+

lemma re_match_sound: "re_match pat s = Some t \<Longrightarrow> \<exists>m\<in>lang pat. s = m @ t"
proof (induction pat s arbitrary: t rule: re_match.induct)
  case (1 s)
  then show ?case by simp
next
  case (2 p r s)
  from "2.prems" obtain c u where s: "s = c # u" "p c" "re_match r u = Some t"
    by (cases s) (auto split: if_splits)
  from "2.IH"[OF s(1) s(2) s(3)] obtain m where m: "m \<in> lang r" "u = m @ t" by blast
  from m(1) s(2) have "c # m \<in> lang (One p # r)" by simp
  moreover have "s = (c # m) @ t" using s(1) m(2) by simp
  ultimately show ?case by blast
next
  case (3 p r s)
  show ?case
  proof (cases "case s of [] \<Rightarrow> None | c # u \<Rightarrow> if p c then re_match r u else None")
    case None
    with "3.prems" have "re_match r s = Some t" by simp
    from "3.IH"(2)[OF None this] obtain m where "m \<in> lang r" "s = m @ t" by blast
    then show ?thesis by auto
  next
    case (Some t')
    with "3.prems" have tt: "t' = t" by simp
    from Some obtain c u where s: "s = c # u" "p c" "re_match r u = Some t'"
      by (cases s) (auto split: if_splits)
    from "3.IH"(1)[OF s(1) s(2) s(3)] obtain m where m: "m \<in> lang r" "u = m @ t'" by blast
    from m(1) s(2) have "c # m \<in> lang (Opt p # r)" by simp
    moreover have "s = (c # m) @ t" using s(1) m(2) tt by simp
    ultimately show ?thesis by blast
  qed
next
  case (4 n p r s)
  from "4.prems" have "first_some (re_match r) (greedy_rests n p s) = Some t" by simp
  from first_some_SomeD[OF this] obtain x where
    x: "x \<in> set (greedy_rests n p s)" "re_match r x = Some t" by blast
  from x(1) obtain k where k: "n \<le> k" "k \<le> length (takeWhile p s)" "x = drop k s"
    by (auto simp: greedy_rests_iff)
  from "4.IH"[OF x(2)] obtain w where w: "w \<in> lang r" "x = w @ t" by blast
  have "k \<le> length s" using k(2) length_takeWhile_le[of p s] by simp
  then have len: "length (take k s) = k" by simp
  have all: "\<forall>c\<in>set (take k s). p c" using takeWhile_prefix_all[OF k(2)] .
  have "take k s @ drop k s = s" by (rule append_take_drop_id)
  then have "s = (take k s @ w) @ t" using k(3) w(2) by simp
  moreover have "take k s @ w \<in> lang (AtLeast n p # r)"
    using len all k(1) w(1) by (intro lang_AtLeastI) simp_all
  ultimately show ?case by blast
qed

lemma re_match_complete: "m \<in> lang pat \<Longrightarrow> re_match pat (m @ t) \<noteq> None"
proof (induction pat arbitrary: m)
  case Nil
  then show ?case by simp
next
  case (Cons it r)
  show ?case
  proof (cases it)
    case (One p)
    with Cons show ?thesis by auto
  next
    case (Opt p)
    with Cons.prems have "(\<exists>c w. m = c # w \<and> p c \<and> w \<in> lang r) \<or> m \<in> lang r" by auto
    then show ?thesis
    proof
      assume "\<exists>c w. m = c # w \<and> p c \<and> w \<in> lang r"
      then obtain c w where "m = c # w" "p c" "w \<in> lang r" by blast
      with Cons.IH[of w] Opt show ?thesis by auto
    next
      assume "m \<in> lang r"
      with Cons.IH[of m] Opt show ?thesis by (auto split: option.splits)
    qed
  next
    case (AtLeast n p)
    with Cons.prems obtain u w where
      m: "m = u @ w" "n \<le> length u" "\<forall>c\<in>set u. p c" "w \<in> lang r" by auto
    have "length u \<le> length (takeWhile p (u @ w @ t))"
      using length_takeWhile_all[OF m(3)] .
    with m(2) have "drop (length u) (u @ w @ t) \<in> set (greedy_rests n p (u @ w @ t))"
      unfolding greedy_rests_iff by blast
    then have mem: "w @ t \<in> set (greedy_rests n p (m @ t))" using m(1) by simp
    from Cons.IH[OF m(4)] have "re_match r (w @ t) \<noteq> None" .
    with mem first_some_NoneD[of "re_match r" "greedy_rests n p (m @ t)" "w @ t"]
    have "first_some (re_match r) (greedy_rests n p (m @ t)) \<noteq> None" by blast
    with AtLeast show ?thesis by simp
  qed
qed


text \<open>A pattern whose matches are never empty.\<close>

lemma re_match_shorter:
  assumes "[] \<notin> lang pat" "re_match pat u = Some t"
  shows "length t < length u"
proof -
  from re_match_sound[OF assms(2)] obtain m where "m \<in> lang pat" "u = m @ t" by blast
  with assms(1) show ?thesis by (cases m) auto
qed

lemma re_match_Nil_None: "[] \<notin> lang pat \<Longrightarrow> re_match pat [] = None"
  using re_match_shorter[of pat "[]"] by (cases "re_match pat []") auto

lemma re_sub_prefix_alpha:
  assumes ne: "[] \<notin> lang pat" and r1: "repl \<noteq> []" and r2: "\<not> A (hd repl)"
  shows "prefix w (re_sub pat repl s) \<Longrightarrow> \<forall>c\<in>set w. A c \<Longrightarrow> prefix w s"
proof (induction s arbitrary: w)
  case Nil
  then show ?case by (simp add: re_match_Nil_None[OF ne])
next
  case (Cons c s)
  show ?case
  proof (cases w)
    case Nil
    then show ?thesis by simp
  next
    case w: (Cons d w')
    show ?thesis
    proof (cases "re_match pat (c # s)")
      case None
      with Cons.prems(1) w have d: "d = c" "prefix w' (re_sub pat repl s)" by simp_all
      from Cons.IH[OF d(2)] Cons.prems(2) w have "prefix w' s" by simp
      with d(1) w show ?thesis by simp
    next
      case (Some t)
      from re_match_shorter[OF ne Some] have "length t < length (c # s)" .
      with Some have out: "re_sub pat repl (c # s) = repl @ re_sub pat repl t" by simp
      from r1 obtain h r' where r: "repl = h # r'" by (cases repl) auto
      with Cons.prems(1) out w have "d = h" by simp
      with Cons.prems(2) w r r2 show ?thesis by simp
    qed
  qed
qed

lemma no_match_after_sub:
  assumes alpha: "\<And>m. m \<in> lang pat2 \<Longrightarrow> m \<noteq> [] \<and> (\<forall>c\<in>set m. A c)"
    and ne1: "[] \<notin> lang pat1"
    and repl: "repl \<noteq> []" "\<not> A (hd repl)" "\<not> A (last repl)"
    and repl_free: "\<And>u. suffix u repl \<Longrightarrow> re_match pat2 u = None"
  shows "(\<And>u. suffix u s \<Longrightarrow> re_match pat1 u = None \<Longrightarrow> re_match pat2 u = None) \<Longrightarrow>
         suffix v (re_sub pat1 repl s) \<Longrightarrow> re_match pat2 v = None"
proof (induction "length s" arbitrary: s v rule: less_induct)
  case less
  note copy = less.prems(1)
  show ?case
  proof (cases s)
    case Nil
    have ne2: "[] \<notin> lang pat2" using alpha by blast
    from less.prems(2) Nil have "v = []" by (simp add: re_match_Nil_None[OF ne1])
    then show ?thesis by (simp add: re_match_Nil_None[OF ne2])
  next
    case (Cons c s')
  show ?thesis
  proof (cases "re_match pat1 (c # s')")
    case None
    then have out: "re_sub pat1 repl (c # s') = c # re_sub pat1 repl s'" by simp
    from less.prems(2)[unfolded Cons] out
    have "v = c # re_sub pat1 repl s' \<or> suffix v (re_sub pat1 repl s')"
      by (simp add: suffix_Cons)
    then show ?thesis
    proof
      assume "suffix v (re_sub pat1 repl s')"
      moreover have "\<And>u. suffix u s' \<Longrightarrow> re_match pat1 u = None \<Longrightarrow> re_match pat2 u = None"
        using copy Cons by (simp add: suffix_ConsI)
      moreover have "length s' < length s" using Cons by simp
      ultimately show ?thesis using less.hyps[of s' v] by blast
    next
      assume v: "v = c # re_sub pat1 repl s'"
      show ?thesis
      proof (rule ccontr)
        assume "re_match pat2 v \<noteq> None"
        then obtain t where "re_match pat2 v = Some t" by auto
        from re_match_sound[OF this] obtain m where m: "m \<in> lang pat2" "v = m @ t" by blast
        from alpha[OF m(1)] obtain d m' where mm: "m = d # m'" "\<forall>c\<in>set m. A c"
          by (cases m) auto
        from m(2) v mm(1) have d: "d = c" "prefix m' (re_sub pat1 repl s')" by auto
        from re_sub_prefix_alpha[of pat1 repl A m' s', OF ne1 repl(1) repl(2) d(2)] mm
        have "prefix m' s'" by simp
        then obtain t' where "c # s' = m @ t'" using mm(1) d(1) by (auto simp: prefix_def)
        with re_match_complete[OF m(1), of t'] have "re_match pat2 (c # s') \<noteq> None" by simp
        moreover have "re_match pat2 (c # s') = None" using copy[of "c # s'"] None Cons by simp
        ultimately show False by simp
      qed
    qed
  next
    case (Some t)
    from re_match_shorter[OF ne1 Some] have lt: "length t < length (c # s')" .
    with Some have out: "re_sub pat1 repl (c # s') = repl @ re_sub pat1 repl t" by simp
    from re_match_sound[OF Some] have st: "suffix t (c # s')" by (auto simp: suffix_def)
    have copy_t: "\<And>u. suffix u t \<Longrightarrow> re_match pat1 u = None \<Longrightarrow> re_match pat2 u = None"
      using copy st Cons suffix_order.trans by blast
    from less.prems(2)[unfolded Cons] out
    have "suffix v (re_sub pat1 repl t) \<or> (\<exists>zs. v = zs @ re_sub pat1 repl t \<and> suffix zs repl)"
      by (simp add: suffix_append)
    then show ?thesis
    proof
      assume "suffix v (re_sub pat1 repl t)"
      with less.hyps[of t v] lt Cons copy_t show ?thesis by simp
    next
      assume "\<exists>zs. v = zs @ re_sub pat1 repl t \<and> suffix zs repl"
      then obtain zs where zs: "v = zs @ re_sub pat1 repl t" "suffix zs repl" by blast
      show ?thesis
      proof (cases "zs = []")
        case True
        with zs(1) have "suffix v (re_sub pat1 repl t)" by simp
        with less.hyps[of t v] lt Cons copy_t show ?thesis by simp
      next
        case False
        with zs(2) repl(1) have lz: "last zs = last repl"
          by (auto simp: suffix_def)
        show ?thesis
        proof (rule ccontr)
          assume "re_match pat2 v \<noteq> None"
          then obtain t2 where "re_match pat2 v = Some t2" by auto
          from re_match_sound[OF this] obtain m where m: "m \<in> lang pat2" "v = m @ t2" by blast
          from alpha[OF m(1)] have ma: "\<forall>c\<in>set m. A c" by simp
          from m(2) zs(1) have "prefix m (zs @ re_sub pat1 repl t)" by (simp add: prefix_def)
          then have "prefix m zs \<or> (\<exists>us. m = zs @ us)"
            by (auto simp: prefix_append)
          then show False
          proof
            assume "prefix m zs"
            then obtain r where "zs = m @ r" by (auto simp: prefix_def)
            with re_match_complete[OF m(1), of r] have "re_match pat2 zs \<noteq> None" by simp
            with repl_free[OF zs(2)] show False by simp
          next
            assume "\<exists>us. m = zs @ us"
            then obtain us where "m = zs @ us" by blast
            with False have "last zs \<in> set m" by simp
            with ma lz repl(3) show False by auto
          qed
        qed
      qed
    qed
  qed
  qed
qed


lemma lang_PHONE_alpha:
  "m \<in> lang PHONE_RE \<Longrightarrow> m \<noteq> [] \<and> (\<forall>c\<in>set m. phone_char c \<or> c = CHR ''+'')"
  by (auto simp: PHONE_RE_def phone_char_def)

lemma lang_EMAIL_alpha:
  "m \<in> lang EMAIL_RE \<Longrightarrow> m \<noteq> [] \<and> (\<forall>c\<in>set m. email_char c \<or> c = CHR ''@'')"
  by (auto simp: EMAIL_RE_def email_char_def)

lemma suffixes_PHONE:
  "suffixes ''[PHONE]'' = [[], '']'', ''E]'', ''NE]'', ''ONE]'', ''HONE]'', ''PHONE]'', ''[PHONE]'']"
  by simp

lemma suffixes_EMAIL:
  "suffixes ''[EMAIL]'' = [[], '']'', ''L]'', ''IL]'', ''AIL]'', ''MAIL]'', ''EMAIL]'', ''[EMAIL]'']"
  by simp

lemma PHONE_free_of_PHONE: "suffix u ''[PHONE]'' \<Longrightarrow> re_match PHONE_RE u = None"
proof -
  assume "suffix u ''[PHONE]''"
  then have "u \<in> set (suffixes ''[PHONE]'')" by (simp only: in_set_suffixes)
  then have "u \<in> set [[], '']'', ''E]'', ''NE]'', ''ONE]'', ''HONE]'', ''PHONE]'', ''[PHONE]'']"
    unfolding suffixes_PHONE .
  then show ?thesis by (auto simp: PHONE_RE_def greedy_rests_def char_eval)
qed

lemma PHONE_free_of_EMAIL: "suffix u ''[PHONE]'' \<Longrightarrow> re_match EMAIL_RE u = None"
proof -
  assume "suffix u ''[PHONE]''"
  then have "u \<in> set (suffixes ''[PHONE]'')" by (simp only: in_set_suffixes)
  then have "u \<in> set [[], '']'', ''E]'', ''NE]'', ''ONE]'', ''HONE]'', ''PHONE]'', ''[PHONE]'']"
    unfolding suffixes_PHONE .
  then show ?thesis by (auto simp: EMAIL_RE_def greedy_rests_def char_eval)
qed

lemma EMAIL_free_of_EMAIL: "suffix u ''[EMAIL]'' \<Longrightarrow> re_match EMAIL_RE u = None"
proof -
  assume "suffix u ''[EMAIL]''"
  then have "u \<in> set (suffixes ''[EMAIL]'')" by (simp only: in_set_suffixes)
  then have "u \<in> set [[], '']'', ''L]'', ''IL]'', ''AIL]'', ''MAIL]'', ''EMAIL]'', ''[EMAIL]'']"
    unfolding suffixes_EMAIL .
  then show ?thesis by (auto simp: EMAIL_RE_def greedy_rests_def char_eval)
qed

lemma brackets_not_phone:
  "\<not> (phone_char (hd ''[PHONE]'') \<or> hd ''[PHONE]'' = CHR ''+'')"
  "\<not> (phone_char (last ''[PHONE]'') \<or> last ''[PHONE]'' = CHR ''+'')"
  by (simp_all add: char_eval)

lemma brackets_not_email:
  "\<not> (email_char (hd ''[PHONE]'') \<or> hd ''[PHONE]'' = CHR ''@'')"
  "\<not> (email_char (last ''[PHONE]'') \<or> last ''[PHONE]'' = CHR ''@'')"
  "\<not> (email_char (hd ''[EMAIL]'') \<or> hd ''[EMAIL]'' = CHR ''@'')"
  "\<not> (email_char (last ''[EMAIL]'') \<or> last ''[EMAIL]'' = CHR ''@'')"
  by (simp_all add: char_eval)

lemma no_empty_PHONE: "[] \<notin> lang PHONE_RE"
  using lang_PHONE_alpha by blast

lemma no_empty_EMAIL: "[] \<notin> lang EMAIL_RE"
  using lang_EMAIL_alpha by blast

lemma no_phone_left:
  "suffix v (re_sub PHONE_RE ''[PHONE]'' s) \<Longrightarrow> re_match PHONE_RE v = None"
  by (rule no_match_after_sub[where ?pat1.0 = PHONE_RE and ?pat2.0 = PHONE_RE
        and repl = "''[PHONE]''" and A = "\<lambda>c. phone_char c \<or> c = CHR ''+''" and s = s,
        OF lang_PHONE_alpha no_empty_PHONE _ brackets_not_phone PHONE_free_of_PHONE])
     simp_all

lemma no_email_left_after_email:
  "suffix v (re_sub EMAIL_RE ''[EMAIL]'' s) \<Longrightarrow> re_match EMAIL_RE v = None"
  by (rule no_match_after_sub[where ?pat1.0 = EMAIL_RE and ?pat2.0 = EMAIL_RE
        and repl = "''[EMAIL]''" and A = "\<lambda>c. email_char c \<or> c = CHR ''@''" and s = s,
        OF lang_EMAIL_alpha no_empty_EMAIL _ brackets_not_email(3,4) EMAIL_free_of_EMAIL])
     simp_all

lemma no_email_left:
  "suffix v (re_sub PHONE_RE ''[PHONE]'' (re_sub EMAIL_RE ''[EMAIL]'' s)) \<Longrightarrow>
   re_match EMAIL_RE v = None"
  by (rule no_match_after_sub[where ?pat1.0 = PHONE_RE and ?pat2.0 = EMAIL_RE
        and repl = "''[PHONE]''" and A = "\<lambda>c. email_char c \<or> c = CHR ''@''"
        and s = "re_sub EMAIL_RE ''[EMAIL]'' s",
        OF lang_EMAIL_alpha no_empty_PHONE _ brackets_not_email(1,2) PHONE_free_of_EMAIL])
     (simp_all add: no_email_left_after_email)

lemma mask_pii_leaves_no_token:
  "re_match EMAIL_RE (drop i (mask_pii tx)) = None \<and> re_match PHONE_RE (drop i (mask_pii tx)) = None"
  using no_email_left[of "drop i (mask_pii tx)" tx]
    no_phone_left[of "drop i (mask_pii tx)" "re_sub EMAIL_RE ''[EMAIL]'' tx"]
  by (simp add: mask_pii_def suffix_drop)

section \<open>Properties of the preprocessor\<close>

lemmas pre_eval = char_eval splitlines_def window_lines_def adjust_index_def strip_def
  any_phrase_in_def SYSTEM_NOISE_PHRASES_def ATTACHMENT_MARKERS_def
  clean_whatsapp_text_def mask_pii_def EMAIL_RE_def PHONE_RE_def greedy_rests_def
  sublist_code(3)

lemma re_match_Nil_EMAIL: "re_match EMAIL_RE [] = None"
  by (simp add: EMAIL_RE_def greedy_rests_def)

lemma re_match_Nil_PHONE: "re_match PHONE_RE [] = None"
  by (simp add: PHONE_RE_def)

lemma mask_pii_Nil: "mask_pii [] = []"
  by (simp add: mask_pii_def re_match_Nil_EMAIL re_match_Nil_PHONE)

lemma window_lines_Nil: "window_lines [] k = []"
  by (simp add: window_lines_def split: option.splits)

lemma length_window_lines: "length (window_lines ls k) \<le> length ls"
  by (simp add: window_lines_def split: option.splits)

lemma filter_lines_eq:
  "filter_lines rs ra ls cleaned removed =
     (cleaned @ filter (\<lambda>s. s \<noteq> [] \<and> \<not> is_noise_line rs ra s) (map strip ls),
      removed + length (filter (\<lambda>s. s \<noteq> [] \<and> is_noise_line rs ra s) (map strip ls)))"
  by (induction ls arbitrary: cleaned removed) (auto simp: Let_def is_noise_line_def)

lemma clean_whatsapp_text_eq:
  "clean_whatsapp_text raw k rs ra pm =
     (let ls = window_lines (splitlines raw) k;
          joined = join [newline] (filter (\<lambda>s. s \<noteq> [] \<and> \<not> is_noise_line rs ra s) (map strip ls));
          tx = (if pm then mask_pii joined else joined)
      in (tx, \<lparr>original_lines = length (splitlines raw),
               kept_lines_window = length ls,
               removed_noise_lines =
                 length (filter (\<lambda>s. s \<noteq> [] \<and> is_noise_line rs ra s) (map strip ls)),
               final_chars = length tx\<rparr>))"
  by (simp add: clean_whatsapp_text_def filter_lines_eq Let_def)

text \<open>
  Claim C4 (the preprocessor is total; empty input). \<open>clean_whatsapp_text\<close> is a total
  function of its five arguments: no operation of it can raise. On the empty text it
  returns the empty text and four zero counters, whatever the configuration. On every
  input the counters are consistent: the window is no longer than the input, the removed
  lines are lines of the window, and \<open>final_chars\<close> is the length of the cleaned text.
\<close>

theorem clean_total_empty:
  "clean_whatsapp_text [] k rs ra pm
     = ([], \<lparr>original_lines = 0, kept_lines_window = 0, removed_noise_lines = 0,
              final_chars = 0\<rparr>)
   \<and> original_lines (snd (clean_whatsapp_text raw k rs ra pm)) = length (splitlines raw)
   \<and> kept_lines_window (snd (clean_whatsapp_text raw k rs ra pm))
       \<le> original_lines (snd (clean_whatsapp_text raw k rs ra pm))
   \<and> removed_noise_lines (snd (clean_whatsapp_text raw k rs ra pm))
       \<le> kept_lines_window (snd (clean_whatsapp_text raw k rs ra pm))
   \<and> final_chars (snd (clean_whatsapp_text raw k rs ra pm))
       = length (fst (clean_whatsapp_text raw k rs ra pm))"
proof -
  have e: "clean_whatsapp_text [] k rs ra pm
     = ([], \<lparr>original_lines = 0, kept_lines_window = 0, removed_noise_lines = 0,
              final_chars = 0\<rparr>)"
    by (simp add: clean_whatsapp_text_def splitlines_def window_lines_Nil mask_pii_Nil)
  have 1: "original_lines (snd (clean_whatsapp_text raw k rs ra pm)) = length (splitlines raw)"
    by (simp add: clean_whatsapp_text_eq Let_def)
  have 2: "kept_lines_window (snd (clean_whatsapp_text raw k rs ra pm))
       \<le> original_lines (snd (clean_whatsapp_text raw k rs ra pm))"
    by (simp add: clean_whatsapp_text_eq Let_def length_window_lines)
  have "length (filter (\<lambda>s. s \<noteq> [] \<and> is_noise_line rs ra s)
                     (map strip (window_lines (splitlines raw) k)))
           \<le> length (map strip (window_lines (splitlines raw) k))"
    by (rule length_filter_le)
  then have 3: "removed_noise_lines (snd (clean_whatsapp_text raw k rs ra pm))
       \<le> kept_lines_window (snd (clean_whatsapp_text raw k rs ra pm))"
    by (simp add: clean_whatsapp_text_eq Let_def)
  have 4: "final_chars (snd (clean_whatsapp_text raw k rs ra pm))
       = length (fst (clean_whatsapp_text raw k rs ra pm))"
    by (simp add: clean_whatsapp_text_eq Let_def)
  from e 1 2 3 4 show ?thesis by (intro conjI)
qed

lemma sublist_lower: "sublist w s \<Longrightarrow> sublist (lower w) (lower s)"
proof -
  assume "sublist w s"
  then obtain ps ss where "s = ps @ w @ ss" by (auto simp: sublist_def)
  then have "lower s = lower ps @ lower w @ lower ss" by (simp add: lower_def)
  then show ?thesis unfolding sublist_def by blast
qed

lemma phrase_nonempty: "p \<in> set SYSTEM_NOISE_PHRASES \<Longrightarrow> p \<noteq> []"
  by (auto simp: SYSTEM_NOISE_PHRASES_def)

lemma added_left_phrases:
  "''added'' \<in> set SYSTEM_NOISE_PHRASES" "''left'' \<in> set SYSTEM_NOISE_PHRASES"
  by (simp_all add: SYSTEM_NOISE_PHRASES_def)

lemma phrase_noise:
  assumes "p \<in> set SYSTEM_NOISE_PHRASES" "sublist (lower p) (lower s)"
  shows "s \<noteq> [] \<and> is_noise_line True ra s"
proof -
  from phrase_nonempty[OF assms(1)] have "lower p \<noteq> []" by (simp add: lower_def)
  with assms(2) have "lower s \<noteq> []" by auto
  then have "s \<noteq> []" by (simp add: lower_def)
  moreover have "any_phrase_in SYSTEM_NOISE_PHRASES s"
    using assms by (auto simp: any_phrase_in_def list_ex_iff)
  ultimately show ?thesis by (simp add: is_noise_line_def)
qed

lemma noise_dropped:
  "is_noise_line rs ra (strip ln) \<Longrightarrow> strip ln \<notin> set (fst (filter_lines rs ra ls [] 0))"
  by (auto simp: filter_lines_eq)

text \<open>
  Claim C9 (substring match of the noise phrases). The phrase list contains the bare words
  \<open>added\<close> and \<open>left\<close>. With \<open>remove_system\<close> enabled, every line of the window
  whose stripped lowercase form contains the lowercase form of a noise phrase is non-empty,
  is dropped from the cleaned lines, and is one of the lines that
  \<open>removed_noise_lines\<close> counts; so is, in particular, every line that contains
  \<open>added\<close> or \<open>left\<close> in any letter case.
\<close>

theorem aggressive_noise_match:
  "''added'' \<in> set SYSTEM_NOISE_PHRASES \<and> ''left'' \<in> set SYSTEM_NOISE_PHRASES
   \<and> (\<forall>ln \<in> set (window_lines (splitlines raw) k). \<forall>p \<in> set SYSTEM_NOISE_PHRASES.
         sublist (lower p) (lower (strip ln)) \<longrightarrow>
           strip ln \<noteq> [] \<and> is_noise_line True ra (strip ln)
           \<and> strip ln \<notin> set (fst (filter_lines True ra (window_lines (splitlines raw) k) [] 0)))
   \<and> (\<forall>ln \<in> set (window_lines (splitlines raw) k). \<forall>w.
         sublist w (strip ln) \<and> (lower w = ''added'' \<or> lower w = ''left'') \<longrightarrow>
           strip ln \<noteq> [] \<and> is_noise_line True ra (strip ln)
           \<and> strip ln \<notin> set (fst (filter_lines True ra (window_lines (splitlines raw) k) [] 0)))
   \<and> fst (clean_whatsapp_text raw k True ra False)
       = join [newline] (fst (filter_lines True ra (window_lines (splitlines raw) k) [] 0))
   \<and> removed_noise_lines (snd (clean_whatsapp_text raw k True ra pm))
       = length (filter (\<lambda>ln. strip ln \<noteq> [] \<and> is_noise_line True ra (strip ln))
                  (window_lines (splitlines raw) k))"
proof -
  let ?W = "window_lines (splitlines raw) k"
  have a: "\<forall>ln \<in> set ?W. \<forall>p \<in> set SYSTEM_NOISE_PHRASES.
         sublist (lower p) (lower (strip ln)) \<longrightarrow>
           strip ln \<noteq> [] \<and> is_noise_line True ra (strip ln)
           \<and> strip ln \<notin> set (fst (filter_lines True ra ?W [] 0))"
    using phrase_noise noise_dropped by blast
  have l: "lower ''added'' = ''added''" "lower ''left'' = ''left''"
    by (simp_all add: char_eval)
  have b: "\<forall>ln \<in> set ?W. \<forall>w.
         sublist w (strip ln) \<and> (lower w = ''added'' \<or> lower w = ''left'') \<longrightarrow>
           strip ln \<noteq> [] \<and> is_noise_line True ra (strip ln)
           \<and> strip ln \<notin> set (fst (filter_lines True ra ?W [] 0))"
  proof (intro ballI allI impI)
    fix ln w
    assume w: "sublist w (strip ln) \<and> (lower w = ''added'' \<or> lower w = ''left'')"
    then have "sublist (lower w) (lower (strip ln))" by (simp add: sublist_lower)
    with w l added_left_phrases
    have "\<exists>p \<in> set SYSTEM_NOISE_PHRASES. sublist (lower p) (lower (strip ln))" by metis
    then obtain p where "p \<in> set SYSTEM_NOISE_PHRASES" "sublist (lower p) (lower (strip ln))"
      by blast
    from phrase_noise[OF this] noise_dropped
    show "strip ln \<noteq> [] \<and> is_noise_line True ra (strip ln)
           \<and> strip ln \<notin> set (fst (filter_lines True ra ?W [] 0))"
      by blast
  qed
  have c: "fst (clean_whatsapp_text raw k True ra False)
       = join [newline] (fst (filter_lines True ra ?W [] 0))"
    by (simp add: clean_whatsapp_text_eq Let_def filter_lines_eq)
  have d: "removed_noise_lines (snd (clean_whatsapp_text raw k True ra pm))
       = length (filter (\<lambda>ln. strip ln \<noteq> [] \<and> is_noise_line True ra (strip ln)) ?W)"
    by (simp add: clean_whatsapp_text_eq Let_def filter_map o_def)
  from added_left_phrases a b c d show ?thesis by (intro conjI)
qed

theorem aggressive_noise_match_witness:
  "''I Added sugar'' \<in> set (window_lines
       (splitlines ''I Added sugar\<newline>hello\<newline>He LEFT early'') (Some 800))
   \<and> sublist ''Added'' (strip ''I Added sugar'')
   \<and> (lower ''Added'' = ''added'' \<or> lower ''Added'' = ''left'')
   \<and> is_noise_line True True (strip ''I Added sugar'')
   \<and> strip ''I Added sugar'' \<notin> set (fst (filter_lines True True (window_lines
       (splitlines ''I Added sugar\<newline>hello\<newline>He LEFT early'') (Some 800)) [] 0))
   \<and> clean_whatsapp_text ''I Added sugar\<newline>hello\<newline>He LEFT early'' (Some 800)
         True True True
       = (''hello'', \<lparr>original_lines = 3, kept_lines_window = 3, removed_noise_lines = 2,
                       final_chars = 5\<rparr>)"
proof -
  have h1: "''I Added sugar'' \<in> set (window_lines
       (splitlines ''I Added sugar\<newline>hello\<newline>He LEFT early'') (Some 800))"
    by (simp add: pre_eval)
  have h2: "sublist ''Added'' (strip ''I Added sugar'')" by (simp add: pre_eval)
  have h3: "lower ''Added'' = ''added'' \<or> lower ''Added'' = ''left''" by (simp add: char_eval)
  have ev: "clean_whatsapp_text ''I Added sugar\<newline>hello\<newline>He LEFT early'' (Some 800)
         True True True
       = (''hello'', \<lparr>original_lines = 3, kept_lines_window = 3, removed_noise_lines = 2,
                       final_chars = 5\<rparr>)"
    by (simp add: pre_eval)
  from aggressive_noise_match[of "''I Added sugar\<newline>hello\<newline>He LEFT early''"
      "Some 800" True] h1 h2 h3
  have "is_noise_line True True (strip ''I Added sugar'')
     \<and> strip ''I Added sugar'' \<notin> set (fst (filter_lines True True (window_lines
       (splitlines ''I Added sugar\<newline>hello\<newline>He LEFT early'') (Some 800)) [] 0))"
    by blast
  with h1 h2 h3 ev show ?thesis by blast
qed

text \<open>
  Claim C10 (phone masking can merge lines). The interior class of the phone pattern
  contains the newline, and masking works on the joined text: the two lines
  \<open>call 12345\<close> and \<open>67890 ok\<close> both survive the filters, the phone pattern matches
  \<open>12345\<newline>67890\<close> across the newline, and the masked text \<open>call [PHONE] ok\<close> has one
  line where two lines survived.
\<close>

theorem phone_mask_merges_lines:
  "phone_char newline
   \<and> fst (clean_whatsapp_text ''call 12345\<newline>67890 ok'' (Some 800) True True False)
       = ''call 12345\<newline>67890 ok''
   \<and> fst (filter_lines True True
            (window_lines (splitlines ''call 12345\<newline>67890 ok'') (Some 800)) [] 0)
       = [''call 12345'', ''67890 ok'']
   \<and> re_match PHONE_RE ''12345\<newline>67890 ok'' = Some '' ok''
   \<and> clean_whatsapp_text ''call 12345\<newline>67890 ok'' (Some 800) True True True
       = (''call [PHONE] ok'', \<lparr>original_lines = 2, kept_lines_window = 2,
                                  removed_noise_lines = 0, final_chars = 15\<rparr>)
   \<and> splitlines ''call [PHONE] ok'' = [''call [PHONE] ok'']
   \<and> length (splitlines (fst (clean_whatsapp_text ''call 12345\<newline>67890 ok'' (Some 800)
                                  True True True)))
       < length (fst (filter_lines True True
            (window_lines (splitlines ''call 12345\<newline>67890 ok'') (Some 800)) [] 0))"
proof -
  have 1: "phone_char newline" by (simp add: pre_eval)
  have 2: "fst (clean_whatsapp_text ''call 12345\<newline>67890 ok'' (Some 800) True True False)
       = ''call 12345\<newline>67890 ok''" by (simp add: pre_eval)
  have 3: "fst (filter_lines True True
            (window_lines (splitlines ''call 12345\<newline>67890 ok'') (Some 800)) [] 0)
       = [''call 12345'', ''67890 ok'']" by (simp add: pre_eval)
  have 4: "re_match PHONE_RE ''12345\<newline>67890 ok'' = Some '' ok''" by (simp add: pre_eval)
  have 5: "clean_whatsapp_text ''call 12345\<newline>67890 ok'' (Some 800) True True True
       = (''call [PHONE] ok'', \<lparr>original_lines = 2, kept_lines_window = 2,
                                  removed_noise_lines = 0, final_chars = 15\<rparr>)" by (simp add: pre_eval)
  have 6: "splitlines ''call [PHONE] ok'' = [''call [PHONE] ok'']" by (simp add: pre_eval)
  have 7: "length (splitlines (fst (clean_whatsapp_text ''call 12345\<newline>67890 ok'' (Some 800)
                                  True True True)))
       < length (fst (filter_lines True True
            (window_lines (splitlines ''call 12345\<newline>67890 ok'') (Some 800)) [] 0))"
    unfolding 3 5 by (simp add: 6)
  from 1 2 3 4 5 6 7 show ?thesis by (intro conjI)
qed


text \<open>
  Claim C5 (PII masking). Masking is the substitution of \<open>[PHONE]\<close> for the phone
  pattern applied to the result of the substitution of \<open>[EMAIL]\<close> for the email pattern,
  on the whole joined text. For \<open>Call me at +1 415-555-0100 or a@b.com\<close> the result is
  \<open>Call me at [PHONE] or [EMAIL]\<close>: it contains both placeholders, no digit, and
  neither the number nor the local part with its \<open>@\<close>. The order shows on
  \<open>123456789@example.com\<close>, which becomes \<open>[EMAIL]\<close>; the other order would leave
  \<open>[PHONE]@example.com\<close>. And every token is substituted: in the masked text, for
  every input, neither pattern matches at any position.
\<close>

theorem pii_masking:
  "mask_pii tx = re_sub PHONE_RE ''[PHONE]'' (re_sub EMAIL_RE ''[EMAIL]'' tx)
   \<and> fst (clean_whatsapp_text raw k rs ra True)
       = mask_pii (fst (clean_whatsapp_text raw k rs ra False))
   \<and> mask_pii ''Call me at +1 415-555-0100 or a@b.com'' = ''Call me at [PHONE] or [EMAIL]''
   \<and> sublist ''[PHONE]'' (mask_pii ''Call me at +1 415-555-0100 or a@b.com'')
   \<and> sublist ''[EMAIL]'' (mask_pii ''Call me at +1 415-555-0100 or a@b.com'')
   \<and> \<not> sublist ''415-555-0100'' (mask_pii ''Call me at +1 415-555-0100 or a@b.com'')
   \<and> \<not> list_ex is_digit (mask_pii ''Call me at +1 415-555-0100 or a@b.com'')
   \<and> \<not> sublist ''a@'' (mask_pii ''Call me at +1 415-555-0100 or a@b.com'')
   \<and> CHR ''@'' \<notin> set (mask_pii ''Call me at +1 415-555-0100 or a@b.com'')
   \<and> mask_pii ''123456789@example.com'' = ''[EMAIL]''
   \<and> re_sub EMAIL_RE ''[EMAIL]'' (re_sub PHONE_RE ''[PHONE]'' ''123456789@example.com'')
       = ''[PHONE]@example.com''
   \<and> (\<forall>i. re_match EMAIL_RE (drop i (mask_pii tx)) = None
            \<and> re_match PHONE_RE (drop i (mask_pii tx)) = None)"
proof -
  have 1: "mask_pii tx = re_sub PHONE_RE ''[PHONE]'' (re_sub EMAIL_RE ''[EMAIL]'' tx)"
    by (simp add: mask_pii_def)
  have 2: "fst (clean_whatsapp_text raw k rs ra True)
       = mask_pii (fst (clean_whatsapp_text raw k rs ra False))"
    by (simp add: clean_whatsapp_text_eq Let_def)
  have 3: "mask_pii ''Call me at +1 415-555-0100 or a@b.com'' = ''Call me at [PHONE] or [EMAIL]''"
    by (simp add: pre_eval)
  have 4: "sublist ''[PHONE]'' ''Call me at [PHONE] or [EMAIL]''"
    "sublist ''[EMAIL]'' ''Call me at [PHONE] or [EMAIL]''"
    "\<not> sublist ''415-555-0100'' ''Call me at [PHONE] or [EMAIL]''"
    "\<not> list_ex is_digit ''Call me at [PHONE] or [EMAIL]''"
    "\<not> sublist ''a@'' ''Call me at [PHONE] or [EMAIL]''"
    "CHR ''@'' \<notin> set ''Call me at [PHONE] or [EMAIL]''"
    by (simp_all add: pre_eval)
  have 5: "mask_pii ''123456789@example.com'' = ''[EMAIL]''"
    by (simp add: pre_eval)
  have 6: "re_sub EMAIL_RE ''[EMAIL]'' (re_sub PHONE_RE ''[PHONE]'' ''123456789@example.com'')
       = ''[PHONE]@example.com''"
    by (simp add: pre_eval)
  have 7: "\<forall>i. re_match EMAIL_RE (drop i (mask_pii tx)) = None
            \<and> re_match PHONE_RE (drop i (mask_pii tx)) = None"
    using mask_pii_leaves_no_token by blast
  from 1 2 4 5 6 7 show ?thesis unfolding 3 by (intro conjI refl)
qed


section \<open>Properties of the JSON recovery\<close>

lemma first_some_append:
  "first_some f (xs @ ys) = (case first_some f xs of Some y \<Rightarrow> Some y | None \<Rightarrow> first_some f ys)"
  by (induction xs) (auto split: option.splits)

lemma takeWhile_all: "takeWhile (\<lambda>c. True) xs = xs"
  by (induction xs) simp_all

lemma greedy_rests_all_Cons:
  "greedy_rests 0 (\<lambda>c. True) (x # u) = greedy_rests 0 (\<lambda>c. True) u @ [x # u]"
proof -
  have "0 # map Suc [0..<Suc (length u)] = 0 # [Suc 0..<Suc (Suc (length u))]"
    by (simp only: map_Suc_upt)
  also have "\<dots> = [0..<Suc (Suc (length u))]"
    by (rule upt_conv_Cons[symmetric]) simp
  finally have "[0..<Suc (Suc (length u))] = 0 # map Suc [0..<Suc (length u)]" by simp
  then have "rev [0..<Suc (Suc (length u))] = rev (map Suc [0..<Suc (length u)]) @ [0]"
    by (simp only: rev.simps)
  then show ?thesis by (simp add: greedy_rests_def takeWhile_all o_def rev_map del: upt_Suc)
qed

lemma re_match_to_last_brace:
  "re_match [AtLeast 0 (\<lambda>c. True), One (\<lambda>c. c = CHR ''}'')] u =
     (if CHR ''}'' \<in> set u then Some (rev (takeWhile (\<lambda>c. c \<noteq> CHR ''}'') (rev u))) else None)"
proof (induction u)
  case Nil
  then show ?case by (simp add: greedy_rests_def)
next
  case (Cons x u)
  have unfold: "re_match [AtLeast 0 (\<lambda>c. True), One (\<lambda>c. c = CHR ''}'')] (x # u) =
      (case re_match [AtLeast 0 (\<lambda>c. True), One (\<lambda>c. c = CHR ''}'')] u of
         Some y \<Rightarrow> Some y
       | None \<Rightarrow> if x = CHR ''}'' then Some u else None)"
    by (simp add: greedy_rests_all_Cons first_some_append split: option.splits)
  show ?case
  proof (cases "CHR ''}'' \<in> set u")
    case True
    then have "takeWhile (\<lambda>c. c \<noteq> CHR ''}'') (rev u @ [x]) = takeWhile (\<lambda>c. c \<noteq> CHR ''}'') (rev u)"
      by (intro takeWhile_append1[of "CHR ''}''"]) auto
    with True Cons show ?thesis by (simp add: unfold del: re_match.simps)
  next
    case False
    then have tw: "takeWhile (\<lambda>c. c \<noteq> CHR ''}'') (rev u @ [x])
                = rev u @ takeWhile (\<lambda>c. c \<noteq> CHR ''}'') [x]"
      by (intro takeWhile_append2) auto
    from False Cons
    have n: "re_match [AtLeast 0 (\<lambda>c. True), One (\<lambda>c. c = CHR ''}'')] u = None"
      by simp
    show ?thesis
    proof (cases "x = CHR ''}''")
      case True
      then show ?thesis unfolding unfold n using tw by simp
    next
      case x: False
      with False show ?thesis unfolding unfold n by simp
    qed
  qed
qed

lemma re_match_BRACE:
  "re_match BRACE_RE (c # s) =
     (if c = CHR ''{'' \<and> CHR ''}'' \<in> set s
      then Some (rev (takeWhile (\<lambda>c. c \<noteq> CHR ''}'') (rev s))) else None)"
  using re_match_to_last_brace[of s] by (simp add: BRACE_RE_def del: re_match.simps(4))

lemma re_search_no_closing: "CHR ''}'' \<notin> set s \<Longrightarrow> re_search BRACE_RE s = None"
proof (induction s)
  case Nil
  then show ?case by (simp add: BRACE_RE_def)
next
  case (Cons c s)
  then show ?case by (simp add: re_match_BRACE)
qed

lemma length_after_last_brace:
  "length s - length (rev (takeWhile P (rev s))) = length (rev (dropWhile P (rev s)))"
proof -
  have "length (takeWhile P (rev s)) + length (dropWhile P (rev s)) = length (rev s)"
    by (metis length_append takeWhile_dropWhile_id)
  then show ?thesis by simp
qed

lemma take_to_last_brace:
  "take (length (rev (dropWhile P (rev s)))) s = rev (dropWhile P (rev s))"
proof -
  have "rev s = takeWhile P (rev s) @ dropWhile P (rev s)" by simp
  then have "s = rev (dropWhile P (rev s)) @ rev (takeWhile P (rev s))"
    by (metis rev_append rev_rev_ident)
  then show ?thesis by (metis append_eq_conv_conj)
qed

lemma re_search_brace_span: "re_search BRACE_RE s = greedy_brace_span s"
proof (induction s)
  case Nil
  then show ?case by (simp add: BRACE_RE_def greedy_brace_span_def)
next
  case (Cons c s)
  show ?case
  proof (cases "c = CHR ''{''")
    case False
    with Cons show ?thesis by (simp add: re_match_BRACE greedy_brace_span_def)
  next
    case True
    show ?thesis
    proof (cases "CHR ''}'' \<in> set s")
      case False
      with True show ?thesis
        by (simp add: re_match_BRACE re_search_no_closing greedy_brace_span_def)
    next
      case b: True
      have "Suc (length s) - length (rev (takeWhile (\<lambda>c. c \<noteq> CHR ''}'') (rev s)))
            = Suc (length s - length (rev (takeWhile (\<lambda>c. c \<noteq> CHR ''}'') (rev s))))"
        by (simp add: Suc_diff_le length_takeWhile_le[of _ "rev s", simplified])
      with True b show ?thesis
        by (simp add: re_match_BRACE greedy_brace_span_def length_after_last_brace
              take_to_last_brace del: length_rev)
    qed
  qed
qed


lemma set_strip: "set (strip s) \<subseteq> set s"
proof -
  have "set (dropWhile isspace (rev (dropWhile isspace s))) \<subseteq> set (rev (dropWhile isspace s))"
    by (auto dest: set_dropWhileD)
  also have "\<dots> \<subseteq> set s" by (auto dest: set_dropWhileD)
  finally show ?thesis by (simp add: strip_def)
qed

lemma greedy_brace_span_no_brace:
  assumes "CHR ''{'' \<notin> set s \<or> CHR ''}'' \<notin> set s"
  shows "greedy_brace_span s = None"
proof (cases "dropWhile (\<lambda>c. c \<noteq> CHR ''{'') s")
  case Nil
  show ?thesis unfolding greedy_brace_span_def Nil by simp
next
  case (Cons b u)
  then have "b \<in> set s \<and> set u \<subseteq> set s"
    by (metis list.set_intros(1) set_dropWhileD set_subset_Cons subset_code(1) subset_trans)
  moreover from Cons have "b = CHR ''{''"
    by (metis (mono_tags, lifting) hd_dropWhile list.distinct(1) list.sel(1))
  ultimately have "CHR ''}'' \<notin> set u" using assms by auto
  then show ?thesis unfolding greedy_brace_span_def Cons by simp
qed

lemma parse_direct:
  "ld (strip content) = Some v \<Longrightarrow> parse_model_output ld content = Inr v"
  by (simp add: parse_model_output_def)

lemma parse_span:
  "ld (strip content) = None \<Longrightarrow> greedy_brace_span (strip content) = Some g \<Longrightarrow>
   ld g = Some v \<Longrightarrow> parse_model_output ld content = Inr v"
  by (simp add: parse_model_output_def re_search_brace_span)

lemma parse_no_span:
  "ld (strip content) = None \<Longrightarrow> greedy_brace_span (strip content) = None \<Longrightarrow>
   parse_model_output ld content
     = Inl (ValueError (''Model did not return valid JSON:\<newline>'' @ strip content))"
  by (simp add: parse_model_output_def re_search_brace_span)

lemma parse_span_error:
  "ld (strip content) = None \<Longrightarrow> greedy_brace_span (strip content) = Some g \<Longrightarrow>
   ld g = None \<Longrightarrow> parse_model_output ld content = Inl (JSONDecodeError g)"
  by (simp add: parse_model_output_def re_search_brace_span)

lemmas json_eval = char_eval strip_def greedy_brace_span_def parse_model_output_def
  BRACE_RE_def greedy_rests_def decode_json_def json_space_def

text \<open>
  The paths of the recovery on which no second parse fails. The recovery first parses the
  trimmed text and returns the value on success. On failure it parses the span from the
  first opening brace through the last closing brace, which is what the search for the
  pattern returns, and returns that value if it parses. If there is no such span, it fails
  with the \<open>ValueError\<close> whose message carries the trimmed text; so it does for every
  text without an opening or without a closing brace that \<open>json.loads\<close> rejects. For
  \<open>Sure! {"key_topics":["x"]}\<close> followed by a newline and \<open>Thanks\<close> it returns
  the object.
\<close>

lemma recovery_paths:
  \<open>(ld (strip content) = Some v \<longrightarrow> parse_model_output ld content = Inr v)
   \<and> (ld (strip content) = None \<and> greedy_brace_span (strip content) = Some g \<and> ld g = Some v
        \<longrightarrow> parse_model_output ld content = Inr v)
   \<and> (ld (strip content) = None \<and> greedy_brace_span (strip content) = None
        \<longrightarrow> parse_model_output ld content
            = Inl (ValueError (''Model did not return valid JSON:\<newline>'' @ strip content)))
   \<and> re_search BRACE_RE s = greedy_brace_span s
   \<and> (ld ''Sure! {"key_topics":["x"]}\<newline>Thanks'' = None
        \<and> ld ''{"key_topics":["x"]}'' = Some v
        \<longrightarrow> parse_model_output ld ''Sure! {"key_topics":["x"]}\<newline>Thanks'' = Inr v)
   \<and> ((CHR ''{'' \<notin> set content \<or> CHR ''}'' \<notin> set content) \<and> ld (strip content) = None
        \<longrightarrow> parse_model_output ld content
            = Inl (ValueError (''Model did not return valid JSON:\<newline>'' @ strip content)))\<close>
proof -
  have st: \<open>strip ''Sure! {"key_topics":["x"]}\<newline>Thanks''
              = ''Sure! {"key_topics":["x"]}\<newline>Thanks''\<close>
    by (simp add: json_eval)
  have sp: \<open>greedy_brace_span ''Sure! {"key_topics":["x"]}\<newline>Thanks''
              = Some ''{"key_topics":["x"]}''\<close>
    by (simp add: json_eval)
  have 5: \<open>ld ''Sure! {"key_topics":["x"]}\<newline>Thanks'' = None
        \<and> ld ''{"key_topics":["x"]}'' = Some v
        \<longrightarrow> parse_model_output ld ''Sure! {"key_topics":["x"]}\<newline>Thanks'' = Inr v\<close>
    using parse_span[of ld \<open>''Sure! {"key_topics":["x"]}\<newline>Thanks''\<close>
                       \<open>''{"key_topics":["x"]}''\<close> v]
    unfolding st sp by blast
  have 6: "(CHR ''{'' \<notin> set content \<or> CHR ''}'' \<notin> set content) \<and> ld (strip content) = None
        \<longrightarrow> parse_model_output ld content
            = Inl (ValueError (''Model did not return valid JSON:\<newline>'' @ strip content))"
  proof
    assume a: "(CHR ''{'' \<notin> set content \<or> CHR ''}'' \<notin> set content) \<and> ld (strip content) = None"
    with set_strip[of content]
    have "CHR ''{'' \<notin> set (strip content) \<or> CHR ''}'' \<notin> set (strip content)" by blast
    from greedy_brace_span_no_brace[OF this] a parse_no_span
    show "parse_model_output ld content
            = Inl (ValueError (''Model did not return valid JSON:\<newline>'' @ strip content))"
      by blast
  qed
  from parse_direct parse_span parse_no_span re_search_brace_span 5 6
  show ?thesis by (intro conjI impI) blast+
qed

lemma recovery_examples:
  \<open>decode_json (strip ''Sure! {"key_topics":["x"]}\<newline>Thanks'') = None
   \<and> greedy_brace_span (strip ''Sure! {"key_topics":["x"]}\<newline>Thanks'')
       = Some ''{"key_topics":["x"]}''
   \<and> decode_json ''{"key_topics":["x"]}'' = Some (JObject [(''key_topics'', JArray [JString ''x''])])
   \<and> parse_model_output decode_json ''Sure! {"key_topics":["x"]}\<newline>Thanks''
       = Inr (JObject [(''key_topics'', JArray [JString ''x''])])
   \<and> decode_json (strip '' {"a": 1} '') = Some (JObject [(''a'', JNumber ''1'')])
   \<and> parse_model_output decode_json '' {"a": 1} '' = Inr (JObject [(''a'', JNumber ''1'')])
   \<and> CHR ''{'' \<notin> set ''no json here'' \<and> decode_json (strip ''no json here'') = None
   \<and> greedy_brace_span (strip ''no json here'') = None
   \<and> parse_model_output decode_json ''no json here''
       = Inl (ValueError ''Model did not return valid JSON:\<newline>no json here'')\<close>
proof -
  have a1: \<open>decode_json (strip ''Sure! {"key_topics":["x"]}\<newline>Thanks'') = None\<close>
    by (simp add: json_eval)
  have a2: \<open>greedy_brace_span (strip ''Sure! {"key_topics":["x"]}\<newline>Thanks'')
       = Some ''{"key_topics":["x"]}''\<close>
    by (simp add: json_eval)
  have a3: \<open>decode_json ''{"key_topics":["x"]}''
       = Some (JObject [(''key_topics'', JArray [JString ''x''])])\<close>
    by (simp add: json_eval)
  have b1: \<open>decode_json (strip '' {"a": 1} '') = Some (JObject [(''a'', JNumber ''1'')])\<close>
    by (simp add: json_eval)
  have c1: "CHR ''{'' \<notin> set ''no json here''" by simp
  have c2: "decode_json (strip ''no json here'') = None" by (simp add: json_eval)
  have c3: "greedy_brace_span (strip ''no json here'') = None" by (simp add: json_eval)
  have c4: "strip ''no json here'' = ''no json here''" by (simp add: json_eval)
  from recovery_paths[of decode_json \<open>''Sure! {"key_topics":["x"]}\<newline>Thanks''\<close>
         \<open>JObject [(''key_topics'', JArray [JString ''x''])]\<close> \<open>''{"key_topics":["x"]}''\<close>] a1 a2 a3
  have r1: \<open>parse_model_output decode_json ''Sure! {"key_topics":["x"]}\<newline>Thanks''
       = Inr (JObject [(''key_topics'', JArray [JString ''x''])])\<close>
    by blast
  from recovery_paths[of decode_json \<open>'' {"a": 1} ''\<close> \<open>JObject [(''a'', JNumber ''1'')]\<close>] b1
  have r2: \<open>parse_model_output decode_json '' {"a": 1} '' = Inr (JObject [(''a'', JNumber ''1'')])\<close>
    by blast
  from recovery_paths[of decode_json "''no json here''"] c1 c2
  have r3: "parse_model_output decode_json ''no json here''
       = Inl (ValueError ''Model did not return valid JSON:\<newline>no json here'')"
    unfolding c4 by simp
  from a1 a2 a3 r1 b1 r2 c1 c2 c3 r3 show ?thesis by (intro conjI)
qed

text \<open>
  Claim C3 (JSON recovery). The claim has the recovery fail, when the direct parse and the
  parse of the span both fail, with the error that carries the text of the model. The code
  does so only when there is no span. When the span exists and \<open>json.loads\<close> rejects
  it, the exception of the second \<open>json.loads\<close> leaves the function: the request
  fails, but with \<open>JSONDecodeError\<close>, whose document is the span, and not with the
  \<open>ValueError\<close> whose message carries the trimmed text.
\<close>

theorem json_recovery_span_error:
  assumes "ld (strip content) = None"
    and "greedy_brace_span (strip content) = Some g"
    and "ld g = None"
  shows "re_search BRACE_RE (strip content) = Some g
     \<and> parse_model_output ld content = Inl (JSONDecodeError g)
     \<and> parse_model_output ld content
         \<noteq> Inl (ValueError (''Model did not return valid JSON:\<newline>'' @ strip content))"
  using assms parse_span_error[OF assms] by (simp add: re_search_brace_span)

theorem json_recovery_span_error_witness:
  "decode_json (strip ''Sure {nope} bye'') = None
   \<and> greedy_brace_span (strip ''Sure {nope} bye'') = Some ''{nope}''
   \<and> decode_json ''{nope}'' = None
   \<and> strip ''Sure {nope} bye'' = ''Sure {nope} bye''
   \<and> parse_model_output decode_json ''Sure {nope} bye'' = Inl (JSONDecodeError ''{nope}'')
   \<and> parse_model_output decode_json ''Sure {nope} bye''
       \<noteq> Inl (ValueError ''Model did not return valid JSON:\<newline>Sure {nope} bye'')"
proof -
  have h1: "decode_json (strip ''Sure {nope} bye'') = None" by (simp add: json_eval)
  have h2: "greedy_brace_span (strip ''Sure {nope} bye'') = Some ''{nope}''"
    by (simp add: json_eval)
  have h3: "decode_json ''{nope}'' = None" by (simp add: json_eval)
  have st: "strip ''Sure {nope} bye'' = ''Sure {nope} bye''" by (simp add: json_eval)
  from json_recovery_span_error[OF h1 h2 h3]
  have "parse_model_output decode_json ''Sure {nope} bye'' = Inl (JSONDecodeError ''{nope}'')
      \<and> parse_model_output decode_json ''Sure {nope} bye''
          \<noteq> Inl (ValueError ''Model did not return valid JSON:\<newline>Sure {nope} bye'')"
    unfolding st by simp
  with h1 h2 h3 st show ?thesis by blast
qed

section \<open>Properties of the summarizer\<close>

lemma prompts_distinct: "CHUNK_PROMPT \<noteq> REDUCE_PROMPT"
  by (simp add: CHUNK_PROMPT_def REDUCE_PROMPT_def)

lemma get_client_no_key:
  "no_api_key e \<Longrightarrow> get_client e = Inl (RuntimeError ''OPENAI_API_KEY is not set.'')"
  by (auto simp: no_api_key_def get_client_def split: option.splits)

lemma call_no_key:
  "no_api_key e \<Longrightarrow>
   call_openai_json e sp uc model log = (Inl (RuntimeError ''OPENAI_API_KEY is not set.''), log)"
  by (simp add: call_openai_json_def get_client_no_key)

lemma snd_call_with_key:
  "get_client e = Inr k \<Longrightarrow> snd (call_openai_json e sp uc model log) = log @ [(sp, uc, model)]"
  by (simp add: call_openai_json_def split: sum.splits)

lemma map_stage_no_key:
  "no_api_key e \<Longrightarrow> chunks \<noteq> [] \<Longrightarrow>
   map_stage e pn pu to ch model n i chunks acc log
     = (Inl (RuntimeError ''OPENAI_API_KEY is not set.''), log)"
  by (cases chunks) (simp_all add: call_no_key)

lemma map_stage_run:
  assumes "get_client e = Inr k"
  shows "length sums = length chunks \<Longrightarrow>
    (\<forall>j < length chunks.
       fst (call_openai_json e CHUNK_PROMPT (chunk_payload pn pu to ch (i + j) n (chunks ! j)) model
              (log @ take j (map_requests pn pu to ch model n i chunks))) = Inr (sums ! j)) \<Longrightarrow>
    map_stage e pn pu to ch model n i chunks acc log
      = (Inr (acc @ sums), log @ map_requests pn pu to ch model n i chunks)"
proof (induction chunks arbitrary: i acc log sums)
  case Nil
  then show ?case by simp
next
  case (Cons c cs)
  from Cons.prems(1) obtain s ss where sums: "sums = s # ss" "length ss = length cs"
    by (cases sums) auto
  let ?req = "(CHUNK_PROMPT, chunk_payload pn pu to ch i n c, model)"
  from Cons.prems(2)[rule_format, of 0]
  have f0: "fst (call_openai_json e CHUNK_PROMPT (chunk_payload pn pu to ch i n c) model log) = Inr s"
    by (simp add: sums)
  have s0: "snd (call_openai_json e CHUNK_PROMPT (chunk_payload pn pu to ch i n c) model log)
              = log @ [?req]"
    by (rule snd_call_with_key[OF assms])
  from f0 s0
  have c0: "call_openai_json e CHUNK_PROMPT (chunk_payload pn pu to ch i n c) model log
              = (Inr s, log @ [?req])"
    by (metis prod.collapse)
  have rest: "\<forall>j < length cs.
       fst (call_openai_json e CHUNK_PROMPT (chunk_payload pn pu to ch (i + 1 + j) n (cs ! j)) model
              ((log @ [?req]) @ take j (map_requests pn pu to ch model n (i + 1) cs))) = Inr (ss ! j)"
  proof (intro allI impI)
    fix j assume "j < length cs"
    with Cons.prems(2)[rule_format, of "Suc j"] show
      "fst (call_openai_json e CHUNK_PROMPT (chunk_payload pn pu to ch (i + 1 + j) n (cs ! j)) model
              ((log @ [?req]) @ take j (map_requests pn pu to ch model n (i + 1) cs))) = Inr (ss ! j)"
      by (simp add: sums)
  qed
  from Cons.IH[OF sums(2) rest, of "acc @ [s]"]
  show ?case by (simp add: c0 sums)
qed

lemma map_stage_log:
  "map_stage e pn pu to ch model n i chunks acc log = (r, log') \<Longrightarrow>
   \<exists>m \<le> length chunks. log' = log @ take m (map_requests pn pu to ch model n i chunks)
      \<and> (\<forall>sums. r = Inr sums \<longrightarrow> length sums = length acc + length chunks
             \<and> (get_client e \<noteq> Inl (RuntimeError ''OPENAI_API_KEY is not set.'') \<longrightarrow> m = length chunks))"
proof (induction chunks arbitrary: i acc log)
  case Nil
  then show ?case by auto
next
  case (Cons c cs)
  let ?req = "(CHUNK_PROMPT, chunk_payload pn pu to ch i n c, model)"
  obtain r0 l0 where c0:
    "call_openai_json e CHUNK_PROMPT (chunk_payload pn pu to ch i n c) model log = (r0, l0)"
    by (cases "call_openai_json e CHUNK_PROMPT (chunk_payload pn pu to ch i n c) model log")
  have l0: "l0 = log \<and> (\<exists>err. r0 = Inl err) \<and> get_client e = Inl (RuntimeError ''OPENAI_API_KEY is not set.'')
            \<or> l0 = log @ [?req]"
    using c0 by (auto simp: call_openai_json_def get_client_def split: sum.splits option.splits if_splits)
  show ?case
  proof (cases r0)
    case (Inl err)
    with Cons.prems c0 have "r = Inl err" "log' = l0" by simp_all
    with l0 show ?thesis
    proof (elim disjE)
      assume "l0 = log \<and> (\<exists>err. r0 = Inl err) \<and> get_client e = Inl (RuntimeError ''OPENAI_API_KEY is not set.'')"
      with \<open>log' = l0\<close> \<open>r = Inl err\<close> show ?thesis by (intro exI[of _ 0]) simp
    next
      assume "l0 = log @ [?req]"
      with \<open>log' = l0\<close> \<open>r = Inl err\<close> show ?thesis by (intro exI[of _ 1]) simp
    qed
  next
    case (Inr s)
    with l0 have l: "l0 = log @ [?req]" by auto
    from Cons.prems c0 Inr l
    have "map_stage e pn pu to ch model n (i + 1) cs (acc @ [s]) (log @ [?req]) = (r, log')"
      by simp
    from Cons.IH[OF this] obtain m where m: "m \<le> length cs"
      "log' = (log @ [?req]) @ take m (map_requests pn pu to ch model n (i + 1) cs)"
      "\<forall>sums. r = Inr sums \<longrightarrow> length sums = length (acc @ [s]) + length cs
             \<and> (get_client e \<noteq> Inl (RuntimeError ''OPENAI_API_KEY is not set.'') \<longrightarrow> m = length cs)"
      by blast
    then show ?thesis by (intro exI[of _ "Suc m"]) auto
  qed
qed


lemma length_map_requests [simp]:
  "length (map_requests pn pu to ch model n i chunks) = length chunks"
  by (induction chunks arbitrary: i) simp_all

lemma map_requests_nth:
  "j < length chunks \<Longrightarrow>
   map_requests pn pu to ch model n i chunks ! j
     = (CHUNK_PROMPT, chunk_payload pn pu to ch (i + j) n (chunks ! j), model)"
proof (induction chunks arbitrary: i j)
  case Nil
  then show ?case by simp
next
  case (Cons c cs)
  then show ?case by (cases j) simp_all
qed

lemma map_requests_no_reduce:
  "filter (\<lambda>c. fst c = REDUCE_PROMPT) (map_requests pn pu to ch model n i chunks) = []"
  using prompts_distinct by (induction chunks arbitrary: i) simp_all

lemma length_slices_at: "length (slices_at tx starts) = length starts"
  by (simp add: slices_at_def)

lemma chunk_text_9000:
  "\<exists>chunks. chunk_text tx 9000 = Some chunks \<and> chunks \<noteq> []"
proof -
  have "(1::int) \<le> 9000" by simp
  from chunk_text_run[OF this, of tx] obtain starts where
    "chunk_text tx 9000 = Some (slices_at tx starts)" "starts \<noteq> []" by blast
  moreover from this have "slices_at tx starts \<noteq> []"
    using length_slices_at[of tx starts] by (metis length_0_conv)
  ultimately show ?thesis by blast
qed

text \<open>
  Claim C6 (order of the map stage, one reduce call). With the credential set, and with
  every map request answered by a summary (the request for chunk \<open>j\<close>, made after the
  requests for the chunks before it, yields \<open>sums ! j\<close>), the summarizer returns, and
  the log of its requests is the map requests in the order of the chunks, numbered
  \<open>1..n\<close>, followed by exactly one reduce request. The content of the reduce request is
  the serialization of the object whose only member \<open>chunk_summaries\<close> is the array of
  the summaries in the order of the chunks, and the result is the answer to that request.
\<close>

theorem map_reduce_order:
  assumes key: "get_client e = Inr k"
    and chunks: "chunk_text clean_text 9000 = Some chunks"
    and len: "length sums = length chunks"
    and ok: "\<forall>j < length chunks.
       fst (call_openai_json e CHUNK_PROMPT
              (chunk_payload pn pu to ch (j + 1) (length chunks) (chunks ! j)) model
              (take j (map_requests pn pu to ch model (length chunks) 1 chunks))) = Inr (sums ! j)"
  shows "\<exists>result log.
       summarize_whatsapp_hybrid e clean_text pn pu to ch model = Some (result, log)
     \<and> log = map_requests pn pu to ch model (length chunks) 1 chunks
              @ [(REDUCE_PROMPT, json_dumps e (JObject [(''chunk_summaries'', JArray sums)]), model)]
     \<and> (\<forall>j < length chunks. log ! j
           = (CHUNK_PROMPT, chunk_payload pn pu to ch (j + 1) (length chunks) (chunks ! j), model))
     \<and> length (filter (\<lambda>c. fst c = REDUCE_PROMPT) log) = 1
     \<and> result = fst (call_openai_json e REDUCE_PROMPT
                       (json_dumps e (JObject [(''chunk_summaries'', JArray sums)])) model
                       (map_requests pn pu to ch model (length chunks) 1 chunks))"
proof -
  let ?reqs = "map_requests pn pu to ch model (length chunks) 1 chunks"
  let ?payload = "json_dumps e (JObject [(''chunk_summaries'', JArray sums)])"
  from ok have ok': "\<forall>j < length chunks.
       fst (call_openai_json e CHUNK_PROMPT
              (chunk_payload pn pu to ch (1 + j) (length chunks) (chunks ! j)) model
              ([] @ take j ?reqs)) = Inr (sums ! j)"
    by simp
  from map_stage_run[OF key len ok', of "[]"]
  have ms: "map_stage e pn pu to ch model (length chunks) 1 chunks [] [] = (Inr sums, ?reqs)"
    by simp
  have sn: "snd (call_openai_json e REDUCE_PROMPT ?payload model ?reqs)
              = ?reqs @ [(REDUCE_PROMPT, ?payload, model)]"
    by (rule snd_call_with_key[OF key])
  have run: "summarize_whatsapp_hybrid e clean_text pn pu to ch model
        = Some (fst (call_openai_json e REDUCE_PROMPT ?payload model ?reqs),
                ?reqs @ [(REDUCE_PROMPT, ?payload, model)])"
    unfolding summarize_whatsapp_hybrid_def chunks option.case ms prod.case sum.case
    using sn by (simp add: prod_eq_iff)
  have nth: "\<forall>j < length chunks. (?reqs @ [(REDUCE_PROMPT, ?payload, model)]) ! j
           = (CHUNK_PROMPT, chunk_payload pn pu to ch (j + 1) (length chunks) (chunks ! j), model)"
    by (simp add: nth_append map_requests_nth)
  have cnt: "length (filter (\<lambda>c. fst c = REDUCE_PROMPT) (?reqs @ [(REDUCE_PROMPT, ?payload, model)])) = 1"
    by (simp add: map_requests_no_reduce)
  from run nth cnt show ?thesis by blast
qed

lemmas summ_eval = json_eval demo_env_def call_openai_json_def get_client_def prompts_distinct
  prompts_distinct[symmetric] chunk_text_def

lemma demo_map_call:
  assumes "length log < 3"
  shows \<open>fst (call_openai_json demo_env CHUNK_PROMPT uc model log)
          = Inr ([JObject [(''tone'', JString ''warm''), (''order'', JNumber ''1'')],
                  JObject [(''tone'', JString ''warm''), (''order'', JNumber ''2'')],
                  JObject [(''tone'', JString ''warm''), (''order'', JNumber ''3'')]] ! length log)\<close>
proof -
  from assms have "length log = 0 \<or> length log = 1 \<or> length log = 2" by arith
  then show ?thesis
    by (elim disjE) (simp_all add: summ_eval)
qed

theorem map_reduce_order_witness:
  \<open>get_client demo_env = Inr ''sk-demo''
   \<and> chunk_text demo_text 9000
       = Some [replicate 9000 (CHR ''a''), replicate 9000 (CHR ''a''), replicate 2000 (CHR ''a'')]
   \<and> summarize_whatsapp_hybrid demo_env demo_text ''Ann'' ''Catch up'' ''Warm''
         ''WhatsApp'' ''gpt-4.1-mini''
       = Some (Inr (JObject [(''confidence_note'', JString ''ok'')]),
               [(CHUNK_PROMPT,
                 chunk_payload ''Ann'' ''Catch up'' ''Warm'' ''WhatsApp'' 1 3
                   (replicate 9000 (CHR ''a'')),
                 ''gpt-4.1-mini''),
                (CHUNK_PROMPT,
                 chunk_payload ''Ann'' ''Catch up'' ''Warm'' ''WhatsApp'' 2 3
                   (replicate 9000 (CHR ''a'')),
                 ''gpt-4.1-mini''),
                (CHUNK_PROMPT,
                 chunk_payload ''Ann'' ''Catch up'' ''Warm'' ''WhatsApp'' 3 3
                   (replicate 2000 (CHR ''a'')),
                 ''gpt-4.1-mini''),
                (REDUCE_PROMPT,
                 ''{"chunk_summaries": [{"tone": "warm", "order": 1}, '' @
                 ''{"tone": "warm", "order": 2}, {"tone": "warm", "order": 3}]}'',
                 ''gpt-4.1-mini'')])\<close>
proof -
  let ?chunks = "[replicate 9000 (CHR ''a''), replicate 9000 (CHR ''a''), replicate 2000 (CHR ''a'')]"
  let ?sums = "[JObject [(''tone'', JString ''warm''), (''order'', JNumber ''1'')],
                JObject [(''tone'', JString ''warm''), (''order'', JNumber ''2'')],
                JObject [(''tone'', JString ''warm''), (''order'', JNumber ''3'')]]"
  let ?reqs = "map_requests ''Ann'' ''Catch up'' ''Warm'' ''WhatsApp'' ''gpt-4.1-mini''
                 (length ?chunks) 1 ?chunks"
  have k: \<open>get_client demo_env = Inr ''sk-demo''\<close> by (simp add: summ_eval)
  have c: "chunk_text demo_text 9000 = Some ?chunks"
    unfolding demo_text_def by (rule three_chunks)
  have l: "length ?sums = length ?chunks" by simp
  have ok: "\<forall>j < length ?chunks.
       fst (call_openai_json demo_env CHUNK_PROMPT
              (chunk_payload ''Ann'' ''Catch up'' ''Warm'' ''WhatsApp'' (j + 1) (length ?chunks)
                 (?chunks ! j)) ''gpt-4.1-mini'' (take j ?reqs)) = Inr (?sums ! j)"
  proof (intro allI impI)
    fix j assume j: "j < length ?chunks"
    then have "length (take j ?reqs) = j" by simp
    moreover from j have "length (take j ?reqs) < 3" by simp
    ultimately show "fst (call_openai_json demo_env CHUNK_PROMPT
              (chunk_payload ''Ann'' ''Catch up'' ''Warm'' ''WhatsApp'' (j + 1) (length ?chunks)
                 (?chunks ! j)) ''gpt-4.1-mini'' (take j ?reqs)) = Inr (?sums ! j)"
      using demo_map_call[of "take j ?reqs"] by simp
  qed
  have d: \<open>json_dumps demo_env (JObject [(''chunk_summaries'', JArray ?sums)])
           = ''{"chunk_summaries": [{"tone": "warm", "order": 1}, '' @
             ''{"tone": "warm", "order": 2}, {"tone": "warm", "order": 3}]}''\<close>
    by (simp add: demo_env_def)
  have r: \<open>fst (call_openai_json demo_env REDUCE_PROMPT uc ''gpt-4.1-mini'' lg)
           = Inr (JObject [(''confidence_note'', JString ''ok'')])\<close> for uc lg
    by (simp add: summ_eval)
  have q: "?reqs = [(CHUNK_PROMPT,
                 chunk_payload ''Ann'' ''Catch up'' ''Warm'' ''WhatsApp'' 1 3
                   (replicate 9000 (CHR ''a'')),
                 ''gpt-4.1-mini''),
                (CHUNK_PROMPT,
                 chunk_payload ''Ann'' ''Catch up'' ''Warm'' ''WhatsApp'' 2 3
                   (replicate 9000 (CHR ''a'')),
                 ''gpt-4.1-mini''),
                (CHUNK_PROMPT,
                 chunk_payload ''Ann'' ''Catch up'' ''Warm'' ''WhatsApp'' 3 3
                   (replicate 2000 (CHR ''a'')),
                 ''gpt-4.1-mini'')]"
    by (simp add: numeral_3_eq_3 numeral_2_eq_2)
  from map_reduce_order[OF k c l ok]
  obtain result log where run:
    "summarize_whatsapp_hybrid demo_env demo_text ''Ann'' ''Catch up'' ''Warm''
         ''WhatsApp'' ''gpt-4.1-mini'' = Some (result, log)"
    "log = ?reqs @ [(REDUCE_PROMPT, json_dumps demo_env (JObject [(''chunk_summaries'', JArray ?sums)]),
                     ''gpt-4.1-mini'')]"
    "result = fst (call_openai_json demo_env REDUCE_PROMPT
                       (json_dumps demo_env (JObject [(''chunk_summaries'', JArray ?sums)]))
                       ''gpt-4.1-mini'' ?reqs)"
    by blast
  from run(3) have res: "result = Inr (JObject [(''confidence_note'', JString ''ok'')])"
    by (simp only: r)
  from run(2) have lg: \<open>log = ?reqs @ [(REDUCE_PROMPT,
         ''{"chunk_summaries": [{"tone": "warm", "order": 1}, '' @
         ''{"tone": "warm", "order": 2}, {"tone": "warm", "order": 3}]}'', ''gpt-4.1-mini'')]\<close>
    by (simp only: d)
  from k c run(1) show ?thesis unfolding res lg q by simp
qed

lemma summarize_no_key:
  assumes "no_api_key e"
  shows "summarize_whatsapp_hybrid e clean_text pn pu to ch model
           = Some (Inl (RuntimeError ''OPENAI_API_KEY is not set.''), [])"
proof -
  from chunk_text_9000[of clean_text] obtain chunks where
    c: "chunk_text clean_text 9000 = Some chunks" "chunks \<noteq> []" by blast
  from map_stage_no_key[OF assms c(2)]
  show ?thesis unfolding summarize_whatsapp_hybrid_def c(1) by simp
qed

text \<open>
  Claim C7 (missing credential). When \<open>OPENAI_API_KEY\<close> is unset or empty,
  \<open>_get_client\<close> fails with the error \<open>OPENAI_API_KEY is not set.\<close>; a call of
  \<open>_call_openai_json\<close> fails with it and leaves the log of requests as it was, so no
  request reaches the provider; and the summarizer fails with it on every text, with an
  empty log. The page script still runs the preprocessor and shows its result, together
  with the warning, and a click on the button stops with an error message.
\<close>

theorem missing_credential:
  assumes "no_api_key e"
  shows "get_client e = Inl (RuntimeError ''OPENAI_API_KEY is not set.'')
     \<and> call_openai_json e system_prompt user_content model log
         = (Inl (RuntimeError ''OPENAI_API_KEY is not set.''), log)
     \<and> summarize_whatsapp_hybrid e clean_text pn pu to ch model
         = Some (Inl (RuntimeError ''OPENAI_API_KEY is not set.''), [])
     \<and> app_script e raw k rs ra pm pn pu to ch model clicked
         = Some \<lparr>warning = Some (''OPENAI_API_KEY is not set. Add it to your .env file or '' @
                                  ''environment variables to enable AI summarization.''),
                 clean_text_shown = fst (clean_whatsapp_text raw (Some k) rs ra pm),
                 stats_shown = snd (clean_whatsapp_text raw (Some k) rs ra pm),
                 summary = (if clicked then Stopped ''OPENAI_API_KEY is missing.''
                            else NotRequested)\<rparr>"
proof -
  have 4: "app_script e raw k rs ra pm pn pu to ch model clicked
         = Some \<lparr>warning = Some (''OPENAI_API_KEY is not set. Add it to your .env file or '' @
                                  ''environment variables to enable AI summarization.''),
                 clean_text_shown = fst (clean_whatsapp_text raw (Some k) rs ra pm),
                 stats_shown = snd (clean_whatsapp_text raw (Some k) rs ra pm),
                 summary = (if clicked then Stopped ''OPENAI_API_KEY is missing.''
                            else NotRequested)\<rparr>"
    using assms by (simp add: app_script_def Let_def split_beta)
  from get_client_no_key[OF assms] call_no_key[OF assms] summarize_no_key[OF assms] 4
  show ?thesis by (intro conjI)
qed

theorem missing_credential_witness:
  "no_api_key (demo_env\<lparr>getenv_api_key := None\<rparr>)
   \<and> no_api_key (demo_env\<lparr>getenv_api_key := Some []\<rparr>)
   \<and> summarize_whatsapp_hybrid (demo_env\<lparr>getenv_api_key := None\<rparr>) ''hello'' ''Ann''
         ''Catch up'' ''Warm'' ''WhatsApp'' ''gpt-4.1-mini''
       = Some (Inl (RuntimeError ''OPENAI_API_KEY is not set.''), [])
   \<and> summarize_whatsapp_hybrid (demo_env\<lparr>getenv_api_key := Some []\<rparr>) ''hello'' ''Ann''
         ''Catch up'' ''Warm'' ''WhatsApp'' ''gpt-4.1-mini''
       = Some (Inl (RuntimeError ''OPENAI_API_KEY is not set.''), [])
   \<and> clean_text_shown (the (app_script (demo_env\<lparr>getenv_api_key := None\<rparr>)
         ''hi\<newline>Missed voice call'' 800 True True True ''Ann'' ''Catch up'' ''Warm''
         ''WhatsApp'' ''gpt-4.1-mini'' True)) = ''hi''
   \<and> summary (the (app_script (demo_env\<lparr>getenv_api_key := None\<rparr>)
         ''hi\<newline>Missed voice call'' 800 True True True ''Ann'' ''Catch up'' ''Warm''
         ''WhatsApp'' ''gpt-4.1-mini'' True)) = Stopped ''OPENAI_API_KEY is missing.''"
proof -
  have n1: "no_api_key (demo_env\<lparr>getenv_api_key := None\<rparr>)"
    by (simp add: no_api_key_def)
  have n2: "no_api_key (demo_env\<lparr>getenv_api_key := Some []\<rparr>)"
    by (simp add: no_api_key_def)
  have cl: "fst (clean_whatsapp_text ''hi\<newline>Missed voice call'' (Some 800) True True True) = ''hi''"
    by (simp add: pre_eval)
  from missing_credential[OF n1, where clean_text = "''hello''" and pn = "''Ann''"
         and pu = "''Catch up''" and to = "''Warm''" and ch = "''WhatsApp''"
         and model = "''gpt-4.1-mini''" and raw = "''hi\<newline>Missed voice call''"
         and k = 800 and rs = True and ra = True and pm = True and clicked = True]
       missing_credential[OF n2, where clean_text = "''hello''" and pn = "''Ann''"
         and pu = "''Catch up''" and to = "''Warm''" and ch = "''WhatsApp''"
         and model = "''gpt-4.1-mini''"]
       n1 n2 cl
  show ?thesis by simp
qed

text \<open>
  Whatever the provider answers: the log of a run is an initial part of the map requests, in
  the order of the chunks, followed by at most one reduce request.
\<close>

lemma call_log_shape:
  "snd (call_openai_json e sp uc model log) = log
   \<or> snd (call_openai_json e sp uc model log) = log @ [(sp, uc, model)]"
  by (simp add: call_openai_json_def split: sum.splits)

lemma summarize_log_shape:
  assumes "summarize_whatsapp_hybrid e clean_text pn pu to ch model = Some (result, log)"
  shows "\<exists>chunks m tail. chunk_text clean_text 9000 = Some chunks \<and> m \<le> length chunks
           \<and> log = take m (map_requests pn pu to ch model (length chunks) 1 chunks) @ tail
           \<and> (tail = [] \<or> (\<exists>payload. tail = [(REDUCE_PROMPT, payload, model)]))
           \<and> length (filter (\<lambda>c. fst c = REDUCE_PROMPT) log) \<le> 1"
proof -
  from chunk_text_9000[of clean_text] obtain chunks where
    c: "chunk_text clean_text 9000 = Some chunks" by blast
  let ?reqs = "map_requests pn pu to ch model (length chunks) 1 chunks"
  obtain r l where ms: "map_stage e pn pu to ch model (length chunks) 1 chunks [] [] = (r, l)"
    by (cases "map_stage e pn pu to ch model (length chunks) 1 chunks [] []")
  from map_stage_log[OF ms] obtain m where m: "m \<le> length chunks" "l = take m ?reqs" by auto
  have "\<exists>tail. log = l @ tail \<and> (tail = [] \<or> (\<exists>payload. tail = [(REDUCE_PROMPT, payload, model)]))"
  proof (cases r)
    case (Inl err)
    with assms c ms have "log = l" by (simp add: summarize_whatsapp_hybrid_def)
    then show ?thesis by simp
  next
    case (Inr sums)
    with assms c ms have "log = snd (call_openai_json e REDUCE_PROMPT
        (json_dumps e (JObject [(''chunk_summaries'', JArray sums)])) model l)"
      by (simp add: summarize_whatsapp_hybrid_def)
    with call_log_shape[of e REDUCE_PROMPT
        "json_dumps e (JObject [(''chunk_summaries'', JArray sums)])" model l]
    show ?thesis by (elim disjE) auto
  qed
  then obtain tail where t: "log = l @ tail"
    "tail = [] \<or> (\<exists>payload. tail = [(REDUCE_PROMPT, payload, model)])" by blast
  have "filter (\<lambda>c. fst c = REDUCE_PROMPT) (take m ?reqs) = []"
    using map_requests_no_reduce[of pn pu to ch model "length chunks" 1 chunks]
    by (auto simp: filter_empty_conv dest: in_set_takeD)
  with t m have "length (filter (\<lambda>c. fst c = REDUCE_PROMPT) log) \<le> 1" by auto
  with c m t show ?thesis by blast
qed

end
